theory Spec2Isabelle
  imports Main "HOL-Library.List_Lexorder" "HOL-Library.Multiset"
begin

section \<open>Run-time failures\<close>

text \<open>
  A Go index expression outside the bounds of its slice panics. Every function below
  that can reach such an expression returns \<open>error + 'a\<close>, with \<open>Inl\<close> for the panic.
\<close>

datatype error = IndexOutOfRange

section \<open>Lexicographic next permutation (\<open>LexNext\<close>, \<open>LexNextInt\<close>, \<open>LexNextSort\<close>)\<close>

text \<open>
  Slice elements are Go \<open>int\<close>s that are only compared and moved, never computed with,
  so they are modelled as \<open>int\<close>. Slice indices stay within \<open>0 .. len p\<close>; they are
  naturals where the code keeps them non-negative, and the one place where an index
  can step below zero (\<open>l--\<close> in the second loop) is a branch that panics.
\<close>

text \<open>\<open>p[i], p[j] = p[j], p[i]\<close>\<close>

definition swap :: "'a list \<Rightarrow> nat \<Rightarrow> nat \<Rightarrow> 'a list" where
  "swap p i j = (p[i := p ! j])[j := p ! i]"

text \<open>
  First loop: \<open>for ; p[k] >= p[k+1]; k-- { if k == 0 { return false } }\<close>.
  \<open>None\<close> is the \<open>return false\<close>. The loop starts at \<open>k = len p - 2\<close> and only decreases
  \<open>k\<close>, so \<open>k + 1 < len p\<close> at every read.
\<close>

fun scan_k :: "int list \<Rightarrow> nat \<Rightarrow> nat option" where
  "scan_k p 0 = (if p ! 0 \<ge> p ! 1 then None else Some 0)"
| "scan_k p (Suc k) = (if p ! Suc k \<ge> p ! Suc (Suc k) then scan_k p k else Some (Suc k))"

text \<open>
  Second loop: \<open>for ; p[k] >= p[l]; l-- {}\<close>. There is no lower bound on \<open>l\<close> in the
  source: stepping below zero makes the next read \<open>p[l]\<close> panic.
\<close>

fun scan_l :: "int list \<Rightarrow> nat \<Rightarrow> nat \<Rightarrow> error + nat" where
  "scan_l p k 0 = (if p ! k \<ge> p ! 0 then Inl IndexOutOfRange else Inr 0)"
| "scan_l p k (Suc l) = (if p ! k \<ge> p ! Suc l then scan_l p k l else Inr (Suc l))"

text \<open>Third loop: \<open>for l, r := k+1, last; l < r; l, r = l+1, r-1 { p[l], p[r] = p[r], p[l] }\<close>\<close>

function reverse_from :: "'a list \<Rightarrow> nat \<Rightarrow> nat \<Rightarrow> 'a list" where
  "reverse_from p l r = (if l < r then reverse_from (swap p l r) (l + 1) (r - 1) else p)"
  by pat_completeness auto
termination
  by (relation "measure (\<lambda>(p, l, r). r - l)") auto

declare reverse_from.simps [simp del]

definition LexNext :: "int list \<Rightarrow> error + (bool \<times> int list)" where
  "LexNext p =
     (if length p \<le> 1 then Inr (False, p)
      else let last = length p - 1 in
        case scan_k p (last - 1) of
          None \<Rightarrow> Inr (False, p)
        | Some k \<Rightarrow>
            (case scan_l p k last of
               Inl e \<Rightarrow> Inl e
             | Inr l \<Rightarrow> Inr (True, reverse_from (swap p k l) (k + 1) last)))"

text \<open>\<open>LexNextInt\<close> has the same body as \<open>LexNext\<close>, statement for statement.\<close>

definition LexNextInt :: "int list \<Rightarrow> error + (bool \<times> int list)" where
  "LexNextInt p =
     (if length p \<le> 1 then Inr (False, p)
      else let last = length p - 1 in
        case scan_k p (last - 1) of
          None \<Rightarrow> Inr (False, p)
        | Some k \<Rightarrow>
            (case scan_l p k last of
               Inl e \<Rightarrow> Inl e
             | Inr l \<Rightarrow> Inr (True, reverse_from (swap p k l) (k + 1) last)))"

subsection \<open>The \<open>sort.Interface\<close> variant\<close>

text \<open>
  \<open>sort.Interface\<close> is the capability \<open>{Len, Less, Swap}\<close> over some collection \<open>'s\<close>.
  Indices are Go \<open>int\<close>s, and an implementation may panic on any call.
\<close>

record 's sort_Interface =
  Len :: "'s \<Rightarrow> int"
  Less :: "'s \<Rightarrow> int \<Rightarrow> int \<Rightarrow> error + bool"
  Swap :: "'s \<Rightarrow> int \<Rightarrow> int \<Rightarrow> error + 's"

text \<open>
  \<open>for ; !p.Less(k, k+1); k-- { if k == 0 { return false } }\<close>, started at
  \<open>k = Len - 2\<close>, which is not negative there. \<open>None\<close> is the \<open>return false\<close>.
\<close>

fun sort_scan_k :: "'s sort_Interface \<Rightarrow> 's \<Rightarrow> nat \<Rightarrow> error + nat option" where
  "sort_scan_k I p 0 =
     (case Less I p 0 1 of
        Inl e \<Rightarrow> Inl e
      | Inr b \<Rightarrow> if b then Inr (Some 0) else Inr None)"
| "sort_scan_k I p (Suc k) =
     (case Less I p (int (Suc k)) (int (Suc k) + 1) of
        Inl e \<Rightarrow> Inl e
      | Inr b \<Rightarrow> if b then Inr (Some (Suc k)) else sort_scan_k I p k)"

text \<open>
  \<open>for ; !p.Less(k, l); l-- {}\<close>. Nothing in the loop bounds \<open>l\<close>: with an
  implementation whose \<open>Less\<close> neither answers true nor panics it does not return,
  which is the value \<open>None\<close>.
\<close>

partial_function (option) sort_scan_l ::
    "'s sort_Interface \<Rightarrow> 's \<Rightarrow> int \<Rightarrow> int \<Rightarrow> (error + int) option" where
  "sort_scan_l I p k l =
     (case Less I p k l of
        Inl e \<Rightarrow> Some (Inl e)
      | Inr b \<Rightarrow> if b then Some (Inr l) else sort_scan_l I p k (l - 1))"

text \<open>\<open>for l, r := k+1, last; l < r; l, r = l+1, r-1 { p.Swap(l, r) }\<close>\<close>

function sort_reverse_from :: "'s sort_Interface \<Rightarrow> 's \<Rightarrow> int \<Rightarrow> int \<Rightarrow> error + 's" where
  "sort_reverse_from I p l r =
     (if l < r then
        (case Swap I p l r of
           Inl e \<Rightarrow> Inl e
         | Inr p' \<Rightarrow> sort_reverse_from I p' (l + 1) (r - 1))
      else Inr p)"
  by pat_completeness auto
termination
  by (relation "measure (\<lambda>(I, p, l, r). nat (r - l))") auto

declare sort_reverse_from.simps [simp del]

definition LexNextSort :: "'s sort_Interface \<Rightarrow> 's \<Rightarrow> (error + (bool \<times> 's)) option" where
  "LexNextSort I p =
     (if Len I p \<le> 1 then Some (Inr (False, p))
      else let last = Len I p - 1 in
        case sort_scan_k I p (nat (last - 1)) of
          Inl e \<Rightarrow> Some (Inl e)
        | Inr None \<Rightarrow> Some (Inr (False, p))
        | Inr (Some k) \<Rightarrow>
            (case sort_scan_l I p (int k) last of
               None \<Rightarrow> None
             | Some (Inl e) \<Rightarrow> Some (Inl e)
             | Some (Inr l) \<Rightarrow>
                 (case Swap I p (int k) l of
                    Inl e \<Rightarrow> Some (Inl e)
                  | Inr p' \<Rightarrow>
                      (case sort_reverse_from I p' (int k + 1) last of
                         Inl e \<Rightarrow> Some (Inl e)
                       | Inr p'' \<Rightarrow> Some (Inr (True, p''))))))"

text \<open>
  \<open>sort.IntSlice\<close> of the standard library: \<open>Len\<close> is \<open>len(x)\<close>, \<open>Less(i, j)\<close> is
  \<open>x[i] < x[j]\<close>, \<open>Swap(i, j)\<close> is \<open>x[i], x[j] = x[j], x[i]\<close>; an index outside the
  slice panics.
\<close>

definition in_range :: "'a list \<Rightarrow> int \<Rightarrow> bool" where
  "in_range x i \<longleftrightarrow> 0 \<le> i \<and> i < int (length x)"

definition IntSlice :: "int list sort_Interface" where
  "IntSlice =
     \<lparr> Len = (\<lambda>x. int (length x)),
       Less = (\<lambda>x i j. if in_range x i \<and> in_range x j
                        then Inr (x ! nat i < x ! nat j) else Inl IndexOutOfRange),
       Swap = (\<lambda>x i j. if in_range x i \<and> in_range x j
                        then Inr (swap x (nat i) (nat j)) else Inl IndexOutOfRange) \<rparr>"

section \<open>The two specialisations are one algorithm\<close>

lemma scan_k_le: "scan_k p k0 = Some k \<Longrightarrow> k \<le> k0"
  by (induction k0) (auto split: if_splits)

lemma scan_l_le: "scan_l p k l0 = Inr l \<Longrightarrow> l \<le> l0"
  by (induction l0) (auto split: if_splits)

lemma nat_one_plus_int [simp]: "nat (1 + int l) = Suc l" "nat (2 + int l) = Suc (Suc l)"
  by simp_all

lemma sort_scan_k_IntSlice:
  "Suc k < length p \<Longrightarrow> sort_scan_k IntSlice p k = Inr (scan_k p k)"
proof (induction k)
  case 0
  then show ?case by (auto simp: IntSlice_def in_range_def not_less)
next
  case (Suc k)
  have "nat (int (Suc k) + 1) = Suc (Suc k)" by simp
  with Suc show ?case
    by (auto simp: IntSlice_def in_range_def not_less simp del: of_nat_Suc)
qed

lemma sort_scan_l_IntSlice:
  "k < length p \<Longrightarrow> l < length p \<Longrightarrow>
   sort_scan_l IntSlice p (int k) (int l) = Some (map_sum (\<lambda>e. e) int (scan_l p k l))"
proof (induction l)
  case 0
  have "sort_scan_l IntSlice p (int k) (- 1) = Some (Inl IndexOutOfRange)"
    by (subst sort_scan_l.simps) (simp add: IntSlice_def in_range_def)
  with 0 show ?case
    by (subst sort_scan_l.simps) (auto simp: IntSlice_def in_range_def not_less)
next
  case (Suc l)
  then have "sort_scan_l IntSlice p (int k) (int l) = Some (map_sum (\<lambda>e. e) int (scan_l p k l))"
    by simp
  with Suc.prems show ?case
    by (subst sort_scan_l.simps) (auto simp: IntSlice_def in_range_def not_less)
qed

lemma length_swap [simp]: "length (swap p i j) = length p"
  by (simp add: swap_def)

lemma sort_reverse_from_IntSlice:
  "r < length p \<Longrightarrow>
   sort_reverse_from IntSlice p (int l) (int r) = Inr (reverse_from p l r)"
proof (induction p l r rule: reverse_from.induct)
  case (1 p l r)
  show ?case
  proof (cases "l < r")
    case True
    with "1.prems" have sw: "Swap IntSlice p (int l) (int r) = Inr (swap p l r)"
      by (simp add: IntSlice_def in_range_def)
    from True "1.prems" have "sort_reverse_from IntSlice (swap p l r) (int (l + 1)) (int (r - 1))
        = Inr (reverse_from (swap p l r) (l + 1) (r - 1))"
      by (intro "1.IH") auto
    moreover from True have "int (r - 1) = int r - 1" by simp
    ultimately show ?thesis
      using True sw
      by (subst sort_reverse_from.simps, subst reverse_from.simps) (simp add: add.commute)
  next
    case False
    then show ?thesis
      by (subst sort_reverse_from.simps, subst reverse_from.simps) simp
  qed
qed

text \<open>
  C9. For every int slice \<open>p\<close>, \<open>LexNextSort\<close> run on \<open>p\<close> through \<open>sort.IntSlice\<close>
  returns, and it returns what \<open>LexNextInt\<close> returns on \<open>p\<close>: the same boolean and the
  same final arrangement (and it panics exactly where \<open>LexNextInt\<close> would).
\<close>

theorem LexNextSort_IntSlice: "LexNextSort IntSlice p = Some (LexNextInt p)"
proof (cases "length p \<le> 1")
  case True
  then show ?thesis
    by (simp add: LexNextSort_def LexNextInt_def IntSlice_def)
next
  case False
  define n where "n = length p - 2"
  from False have n: "length p = Suc (Suc n)"
    by (simp add: n_def)
  have L: "Len IntSlice p = int (length p)" by (simp add: IntSlice_def)
  have last: "Len IntSlice p - 1 = int (Suc n)" "length p - 1 = Suc n"
    and k0: "nat (int (Suc n) - 1) = n" "Suc n - 1 = n"
    by (simp_all add: L n)
  have sk: "sort_scan_k IntSlice p n = Inr (scan_k p n)"
    by (rule sort_scan_k_IntSlice) (simp add: n)
  have unf_sort: "LexNextSort IntSlice p =
     (case scan_k p n of
          None \<Rightarrow> Some (Inr (False, p))
        | Some k \<Rightarrow>
            (case sort_scan_l IntSlice p (int k) (int (Suc n)) of
               None \<Rightarrow> None
             | Some (Inl e) \<Rightarrow> Some (Inl e)
             | Some (Inr l) \<Rightarrow>
                 (case Swap IntSlice p (int k) l of
                    Inl e \<Rightarrow> Some (Inl e)
                  | Inr p' \<Rightarrow>
                      (case sort_reverse_from IntSlice p' (int k + 1) (int (Suc n)) of
                         Inl e \<Rightarrow> Some (Inl e)
                       | Inr p'' \<Rightarrow> Some (Inr (True, p''))))))"
    unfolding LexNextSort_def Let_def last k0 sk using n by (simp add: L)
  have unf_int: "LexNextInt p =
     (case scan_k p n of
          None \<Rightarrow> Inr (False, p)
        | Some k \<Rightarrow>
            (case scan_l p k (Suc n) of
               Inl e \<Rightarrow> Inl e
             | Inr l \<Rightarrow> Inr (True, reverse_from (swap p k l) (k + 1) (Suc n))))"
    unfolding LexNextInt_def Let_def last k0 using n by simp
  show ?thesis
  proof (cases "scan_k p n")
    case None
    then show ?thesis by (simp add: unf_sort unf_int)
  next
    case (Some k)
    with scan_k_le have "k \<le> n" by blast
    with n have klt: "k < length p" by simp
    have sl: "sort_scan_l IntSlice p (int k) (int (Suc n))
        = Some (map_sum (\<lambda>e. e) int (scan_l p k (Suc n)))"
      using klt by (rule sort_scan_l_IntSlice) (simp add: n)
    show ?thesis
    proof (cases "scan_l p k (Suc n)")
      case (Inl e)
      with Some sl show ?thesis by (simp add: unf_sort unf_int)
    next
      case (Inr l)
      with scan_l_le have "l \<le> Suc n" by blast
      with n have l_lt: "l < length p" by simp
      with klt have sw: "Swap IntSlice p (int k) (int l) = Inr (swap p k l)"
        by (simp add: IntSlice_def in_range_def)
      have "sort_reverse_from IntSlice (swap p k l) (int (k + 1)) (int (Suc n))
          = Inr (reverse_from (swap p k l) (k + 1) (Suc n))"
        by (rule sort_reverse_from_IntSlice) (simp add: n)
      then have rv: "sort_reverse_from IntSlice (swap p k l) (int k + 1) (int (Suc n))
          = Inr (reverse_from (swap p k l) (k + 1) (Suc n))"
        by (simp add: add.commute)
      from Some Inr show ?thesis
        unfolding unf_sort unf_int by (simp add: sl sw rv del: of_nat_Suc)
    qed
  qed
qed


section \<open>\<open>LexNext\<close> computes the lexicographic successor\<close>

lemma ascending_least:
  "sorted zs \<Longrightarrow> mset r = mset zs \<Longrightarrow> zs \<le> (r :: int list)"
proof (induction zs arbitrary: r)
  case Nil
  then show ?case by simp
next
  case (Cons z zs)
  from Cons.prems(2) obtain y r' where r: "r = y # r'"
    by (cases r) auto
  from Cons.prems(2) have "y \<in> set (z # zs)"
    unfolding r by (metis list.set_intros(1) mset_eq_setD)
  with Cons.prems(1) have zy: "z \<le> y" by auto
  show ?case
  proof (cases "z = y")
    case True
    with Cons.prems r have "mset r' = mset zs" "sorted zs" by auto
    with Cons.IH have "zs \<le> r'" by blast
    with True r show ?thesis by simp
  next
    case False
    with zy r show ?thesis by simp
  qed
qed

lemma descending_greatest:
  "sorted_wrt (\<ge>) ys \<Longrightarrow> mset r = mset ys \<Longrightarrow> (r :: int list) \<le> ys"
proof (induction ys arbitrary: r)
  case Nil
  then show ?case by simp
next
  case (Cons z zs)
  from Cons.prems(2) obtain y r' where r: "r = y # r'"
    by (cases r) auto
  from Cons.prems(2) have "y \<in> set (z # zs)"
    unfolding r by (metis list.set_intros(1) mset_eq_setD)
  with Cons.prems(1) have zy: "y \<le> z" by auto
  show ?case
  proof (cases "z = y")
    case True
    with Cons.prems r have "mset r' = mset zs" "sorted_wrt (\<ge>) zs" by auto
    with Cons.IH have "r' \<le> zs" by blast
    with True r show ?thesis by simp
  next
    case False
    with zy r show ?thesis by simp
  qed
qed

text \<open>The successor, on the decomposition of the slice.\<close>

lemma successor_core:
  fixes a b :: int
  assumes desc: "sorted_wrt (\<ge>) (us @ b # vs)"
    and ab: "a < b" and vs: "\<forall>v \<in> set vs. v \<le> a"
    and r: "mset r = mset (a # us @ b # vs)" and gt: "a # us @ b # vs < r"
  shows "b # rev (us @ a # vs) \<le> r"
proof -
  from r obtain c r' where rc: "r = c # r'" by (cases r) auto
  from gt rc have "a < c \<or> a = c \<and> us @ b # vs < r'" by simp
  moreover have "\<not> (a = c \<and> us @ b # vs < r')"
  proof
    assume h: "a = c \<and> us @ b # vs < r'"
    with r rc have "mset r' = mset (us @ b # vs)" by simp
    with desc have "r' \<le> us @ b # vs" by (rule descending_greatest)
    with h show False by (auto dest: leD)
  qed
  ultimately have ac: "a < c" by blast
  have "c \<in> set (a # us @ b # vs)"
    using r rc by (metis list.set_intros(1) mset_eq_setD)
  with ac vs have "c \<in> set us \<or> c = b" by auto
  moreover from desc have "\<forall>u \<in> set us. b \<le> u"
    by (auto simp: sorted_wrt_append)
  ultimately have bc: "b \<le> c" by auto
  show ?thesis
  proof (cases "b = c")
    case False
    with bc rc show ?thesis by simp
  next
    case True
    with r rc have m: "mset r' = mset (rev (us @ a # vs))" by simp
    from desc ab vs have "sorted_wrt (\<ge>) (us @ a # vs)"
      by (fastforce simp: sorted_wrt_append)
    then have "sorted (rev (us @ a # vs))"
      by (simp only: sorted_wrt_rev) 
    with m have "rev (us @ a # vs) \<le> r'" by (rule ascending_least[rotated])
    with True rc show ?thesis by simp
  qed
qed

lemma successor_prefix:
  fixes xs :: "int list"
  assumes "\<And>r. mset r = mset s \<Longrightarrow> s < r \<Longrightarrow> t \<le> r"
    and "mset r = mset (xs @ s)" and "xs @ s < r"
  shows "xs @ t \<le> r"
  using assms(2,3)
proof (induction xs arbitrary: r)
  case Nil
  with assms(1) show ?case by simp
next
  case (Cons x xs)
  from Cons.prems(1) obtain y r' where r: "r = y # r'" by (cases r) auto
  show ?case
  proof (cases "x = y")
    case True
    with Cons.prems r have "mset r' = mset (xs @ s)" "xs @ s < r'" by auto
    with Cons.IH have "xs @ t \<le> r'" by blast
    with True r show ?thesis by simp
  next
    case False
    with Cons.prems r show ?thesis by auto
  qed
qed

lemma append_less_append: "xs @ s < xs @ t \<longleftrightarrow> s < (t :: int list)"
  by (induction xs) auto

lemma scan_k_Some:
  "scan_k p k0 = Some k \<Longrightarrow>
   k \<le> k0 \<and> p ! k < p ! Suc k \<and> (\<forall>j. k < j \<and> j \<le> k0 \<longrightarrow> p ! Suc j \<le> p ! j)"
proof (induction k0)
  case 0
  then show ?case by (auto split: if_splits)
next
  case (Suc k0)
  show ?case
  proof (cases "p ! Suc (Suc k0) \<le> p ! Suc k0")
    case True
    with Suc.prems have "scan_k p k0 = Some k" by simp
    with Suc.IH have "k \<le> k0 \<and> p ! k < p ! Suc k \<and> (\<forall>j. k < j \<and> j \<le> k0 \<longrightarrow> p ! Suc j \<le> p ! j)"
      by blast
    with True show ?thesis by (auto simp: le_Suc_eq)
  next
    case False
    with Suc.prems show ?thesis by auto
  qed
qed

lemma scan_k_None:
  "scan_k p k0 = None \<Longrightarrow> j \<le> k0 \<Longrightarrow> p ! Suc j \<le> p ! j"
  by (induction k0) (auto split: if_splits simp: le_Suc_eq)

lemma scan_l_Inr:
  "j \<le> l0 \<Longrightarrow> p ! k < p ! j \<Longrightarrow>
   \<exists>l. scan_l p k l0 = Inr l \<and> j \<le> l \<and> l \<le> l0 \<and> p ! k < p ! l \<and>
       (\<forall>i. l < i \<and> i \<le> l0 \<longrightarrow> p ! i \<le> p ! k)"
proof (induction l0)
  case 0
  then show ?case by auto
next
  case (Suc l0)
  show ?case
  proof (cases "p ! Suc l0 \<le> p ! k")
    case True
    with Suc.prems have "j \<le> l0" by (auto simp: le_Suc_eq)
    with Suc obtain l where "scan_l p k l0 = Inr l" "j \<le> l" "l \<le> l0" "p ! k < p ! l"
        "\<forall>i. l < i \<and> i \<le> l0 \<longrightarrow> p ! i \<le> p ! k"
      by blast
    with True show ?thesis by (auto simp: le_Suc_eq)
  next
    case False
    with Suc.prems show ?thesis by auto
  qed
qed

lemma swap_append:
  "swap (xs @ a # us @ b # vs) (length xs) (Suc (length xs + length us)) = xs @ b # us @ a # vs"
  by (simp add: swap_def nth_append list_update_append)

lemma reverse_from_append:
  "reverse_from (xs @ ms @ zs) (length xs) (length xs + length ms - 1) = xs @ rev ms @ zs"
proof (induction "length ms" arbitrary: xs ms zs rule: less_induct)
  case less
  show ?case
  proof (cases "length ms \<le> 1")
    case True
    then have "ms = [] \<or> (\<exists>m. ms = [m])"
      by (cases ms) auto
    then show ?thesis
      by (subst reverse_from.simps) auto
  next
    case False
    then obtain m ms' where 1: "ms = m # ms'" "ms' \<noteq> []"
      by (cases ms) auto
    then obtain ms'' m' where 2: "ms' = ms'' @ [m']"
      by (metis rev_exhaust)
    have ms: "ms = m # ms'' @ [m']" using 1 2 by simp
    have sw: "swap (xs @ ms @ zs) (length xs) (length xs + length ms - 1)
        = (xs @ [m']) @ ms'' @ ([m] @ zs)"
      using swap_append[of xs m ms'' m' zs] by (simp add: ms)
    have "reverse_from ((xs @ [m']) @ ms'' @ ([m] @ zs)) (length (xs @ [m']))
          (length (xs @ [m']) + length ms'' - 1) = (xs @ [m']) @ rev ms'' @ ([m] @ zs)"
      by (rule less) (simp add: ms)
    moreover have "length (xs @ [m']) = length xs + 1"
      "length (xs @ [m']) + length ms'' - 1 = length xs + length ms - 1 - 1"
      by (simp_all add: ms)
    ultimately have "reverse_from ((xs @ [m']) @ ms'' @ ([m] @ zs)) (length xs + 1)
          (length xs + length ms - 1 - 1) = xs @ rev ms @ zs"
      by (simp add: ms)
    moreover have "length xs < length xs + length ms - 1" by (simp add: ms)
    ultimately show ?thesis
      by (subst reverse_from.simps) (simp only: sw if_True)
  qed
qed

lemma descending_drop:
  assumes "\<And>j. k < j \<Longrightarrow> Suc j < length p \<Longrightarrow> p ! Suc j \<le> (p ! j :: int)"
  shows "sorted_wrt (\<ge>) (drop (Suc k) p)"
proof -
  have "transp (\<lambda>x y :: int. x \<ge> y)" by (auto intro: transpI)
  then show ?thesis
    using assms by (auto simp: sorted_wrt_iff_nth_Suc_transp)
qed

lemma LexNext_descending:
  assumes "sorted_wrt (\<ge>) p"
  shows "LexNext p = Inr (False, p)"
proof (cases "length p \<le> 1")
  case True
  then show ?thesis by (simp add: LexNext_def)
next
  case False
  have "scan_k p (length p - 1 - 1) = None"
  proof (cases "scan_k p (length p - 1 - 1)")
    case (Some k)
    then have "k \<le> length p - 1 - 1" "p ! k < p ! Suc k"
      using scan_k_Some by blast+
    moreover from this False have "Suc k < length p" by simp
    with assms have "p ! Suc k \<le> p ! k"
      by (simp add: sorted_wrt_iff_nth_less)
    ultimately show ?thesis by simp
  qed simp
  with False show ?thesis by (simp add: LexNext_def)
qed

lemma LexNext_step:
  assumes "\<not> sorted_wrt (\<ge>) p"
  shows "\<exists>xs a us b vs. p = xs @ a # us @ b # vs \<and> sorted_wrt (\<ge>) (us @ b # vs) \<and> a < b \<and>
           (\<forall>v \<in> set vs. v \<le> a) \<and> LexNext p = Inr (True, xs @ b # rev (us @ a # vs))"
proof -
  define n where "n = length p - 2"
  from assms have "\<not> length p \<le> 1"
    using sorted_wrt01 by blast
  then have len: "length p = Suc (Suc n)" by (simp add: n_def)
  have tr: "transp (\<lambda>x y :: int. x \<ge> y)" by (auto intro: transpI)
  have "scan_k p n \<noteq> None"
  proof
    assume "scan_k p n = None"
    then have "\<forall>j. Suc j < length p \<longrightarrow> p ! Suc j \<le> p ! j"
      using scan_k_None[of p n] len by simp
    with tr assms show False by (simp add: sorted_wrt_iff_nth_Suc_transp)
  qed
  then obtain k where k: "scan_k p n = Some k" by blast
  then have kn: "k \<le> n" and kk: "p ! k < p ! Suc k"
    and kd: "\<forall>j. k < j \<and> j \<le> n \<longrightarrow> p ! Suc j \<le> p ! j"
    using scan_k_Some[of p n k] by blast+
  from kn have "Suc k \<le> Suc n" by simp
  from scan_l_Inr[OF this kk] obtain l where l: "scan_l p k (Suc n) = Inr l"
    and kl: "Suc k \<le> l" and ln: "l \<le> Suc n" and lk: "p ! k < p ! l"
    and ld: "\<forall>i. l < i \<and> i \<le> Suc n \<longrightarrow> p ! i \<le> p ! k"
    by blast
  define xs where "xs = take k p"
  define us where "us = take (l - Suc k) (drop (Suc k) p)"
  define vs where "vs = drop (Suc l) p"
  have klen: "k < length p" and llen: "l < length p" using kn ln len by simp_all
  have "drop (Suc k) p = us @ (drop (Suc k) p ! (l - Suc k)) # drop (Suc (l - Suc k)) (drop (Suc k) p)"
    unfolding us_def using kl llen by (intro id_take_nth_drop) simp
  then have dk: "drop (Suc k) p = us @ p ! l # vs"
    using kl llen by (simp add: vs_def)
  have p: "p = xs @ p ! k # us @ p ! l # vs"
    using id_take_nth_drop[OF klen] dk by (simp add: xs_def)
  have lxs: "length xs = k" using klen by (simp add: xs_def)
  have lus: "Suc (length xs + length us) = l" using kl llen by (simp add: us_def lxs)
  have desc: "sorted_wrt (\<ge>) (us @ p ! l # vs)"
    unfolding dk[symmetric] using kd len by (intro descending_drop) simp
  have vsle: "\<forall>v \<in> set vs. v \<le> p ! k"
  proof
    fix v assume "v \<in> set vs"
    then obtain i where "i < length vs" "v = vs ! i" by (auto simp: in_set_conv_nth)
    then have "v = p ! (Suc l + i)" "Suc l + i \<le> Suc n"
      using len by (auto simp: vs_def)
    with ld show "v \<le> p ! k" by simp
  qed
  have "swap p k l = xs @ p ! l # us @ p ! k # vs"
    using swap_append[of xs "p ! k" us "p ! l" vs] p lxs lus by simp
  moreover have "reverse_from ((xs @ [p ! l]) @ (us @ p ! k # vs) @ []) (length (xs @ [p ! l]))
      (length (xs @ [p ! l]) + length (us @ p ! k # vs) - 1) = (xs @ [p ! l]) @ rev (us @ p ! k # vs) @ []"
    by (rule reverse_from_append)
  moreover have "length (xs @ [p ! l]) + length (us @ p ! k # vs) - 1 = Suc n"
    using arg_cong[OF p, of length] len by simp
  ultimately have "reverse_from (swap p k l) (k + 1) (Suc n) = xs @ p ! l # rev (us @ p ! k # vs)"
    using lxs by simp
  with k l len have "LexNext p = Inr (True, xs @ p ! l # rev (us @ p ! k # vs))"
    by (simp add: LexNext_def)
  with p desc lk vsle show ?thesis by blast
qed

lemma LexNextInt_eq: "LexNextInt p = LexNext p"
  by (simp add: LexNextInt_def LexNext_def)

lemma LexNext_successor:
  assumes "\<not> sorted_wrt (\<ge>) p"
  shows "\<exists>q. LexNext p = Inr (True, q) \<and> mset q = mset p \<and> p < q \<and>
           (\<forall>r. mset r = mset p \<and> p < r \<longrightarrow> q \<le> r)"
proof -
  from LexNext_step[OF assms] obtain xs a us b vs where p: "p = xs @ a # us @ b # vs"
    and desc: "sorted_wrt (\<ge>) (us @ b # vs)" and ab: "a < b" and vs: "\<forall>v \<in> set vs. v \<le> a"
    and nx: "LexNext p = Inr (True, xs @ b # rev (us @ a # vs))"
    by blast
  let ?q = "xs @ b # rev (us @ a # vs)"
  have "mset ?q = mset p" by (subst p) simp
  moreover have "p < ?q" using ab by (subst p) (simp add: append_less_append)
  moreover have "\<forall>r. mset r = mset p \<and> p < r \<longrightarrow> ?q \<le> r"
  proof (intro allI impI)
    fix r assume "mset r = mset p \<and> p < r"
    then have "mset r = mset (xs @ a # us @ b # vs)" "xs @ a # us @ b # vs < r"
      using p by simp_all
    then show "?q \<le> r"
      by (rule successor_prefix[rotated]) (rule successor_core[OF desc ab vs])
  qed
  ultimately show ?thesis using nx by blast
qed


text \<open>
  C1. For every int slice \<open>p\<close>: if \<open>p\<close> is not in non-increasing order, \<open>LexNext\<close>
  returns true and leaves in \<open>p\<close> an arrangement \<open>q\<close> of the same multiset of values that
  is lexicographically greater than \<open>p\<close> and not greater than any other such arrangement
  (the next distinct arrangement); if \<open>p\<close> is non-increasing, it returns false and leaves
  \<open>p\<close> as it is, and \<open>p\<close> is then the greatest arrangement of its multiset. Every slice of
  length at most 1 is non-increasing. \<open>LexNextInt\<close> does the same as \<open>LexNext\<close>.
  The order on slices is the lexicographic one, position 0 most significant.
\<close>

theorem LexNext_correct:
  "(\<not> sorted_wrt (\<ge>) p \<longrightarrow>
      (\<exists>q. LexNext p = Inr (True, q) \<and> mset q = mset p \<and> p < q \<and>
           (\<forall>r. mset r = mset p \<and> p < r \<longrightarrow> q \<le> r))) \<and>
   (sorted_wrt (\<ge>) p \<longrightarrow>
      LexNext p = Inr (False, p) \<and> (\<forall>r. mset r = mset p \<longrightarrow> r \<le> p)) \<and>
   (length p \<le> 1 \<longrightarrow> sorted_wrt (\<ge>) p) \<and>
   LexNextInt p = LexNext p"
proof (intro conjI impI)
  assume "\<not> sorted_wrt (\<ge>) p"
  then show "\<exists>q. LexNext p = Inr (True, q) \<and> mset q = mset p \<and> p < q \<and>
           (\<forall>r. mset r = mset p \<and> p < r \<longrightarrow> q \<le> r)"
    by (rule LexNext_successor)
next
  assume "sorted_wrt (\<ge>) p"
  then show "LexNext p = Inr (False, p)" by (rule LexNext_descending)
next
  assume "sorted_wrt (\<ge>) p"
  then show "\<forall>r. mset r = mset p \<longrightarrow> r \<le> p"
    using descending_greatest by blast
next
  assume "length p \<le> 1"
  then show "sorted_wrt (\<ge>) p" by (rule sorted_wrt01)
next
  show "LexNextInt p = LexNext p" by (rule LexNextInt_eq)
qed

theorem LexNext_correct_witness:
  "\<not> sorted_wrt (\<ge>) [1, 3, 2 :: int] \<and>
   (\<exists>q. LexNext [1, 3, 2] = Inr (True, q) \<and> mset q = mset [1, 3, 2] \<and> [1, 3, 2] < q \<and>
        (\<forall>r. mset r = mset [1, 3, 2] \<and> [1, 3, 2] < r \<longrightarrow> q \<le> r)) \<and>
   sorted_wrt (\<ge>) [3, 2, 1 :: int] \<and> LexNext [3, 2, 1] = Inr (False, [3, 2, 1]) \<and>
   LexNext [] = Inr (False, []) \<and> LexNext [7] = Inr (False, [7])"
proof -
  have a: "\<not> sorted_wrt (\<ge>) [1, 3, 2 :: int]" by simp
  have b: "sorted_wrt (\<ge>) [3, 2, 1 :: int]" by simp
  have c: "length ([] :: int list) \<le> 1" "length [7 :: int] \<le> 1" by simp_all
  show ?thesis
    using a b c LexNext_correct [of "[1, 3, 2]"] LexNext_correct [of "[3, 2, 1]"]
      LexNext_correct [of "[]"] LexNext_correct [of "[7]"]
    by blast
qed


section \<open>Enumerating a multiset with \<open>LexNextInt\<close>\<close>

lemma finite_arrangements: "finite {r. mset r = M}"
proof -
  have "{r. mset r = M} \<subseteq> {r. set r \<subseteq> set_mset M \<and> length r = size M}"
    by auto
  moreover have "finite {r. set r \<subseteq> set_mset M \<and> length r = size M}"
    by (rule finite_lists_length_eq) simp
  ultimately show ?thesis by (rule finite_subset)
qed

lemma arrangements_split:
  assumes "M \<noteq> {#}"
  shows "{r. mset r = M} = (\<Union>x \<in> set_mset M. (#) x ` {r. mset r = M - {#x#}})"
proof (intro set_eqI iffI)
  fix r assume "r \<in> {r. mset r = M}"
  then have m: "mset r = M" by simp
  with assms obtain x r' where r: "r = x # r'" by (cases r) auto
  with m have "x \<in># M" "mset r' = M - {#x#}" by auto
  with r show "r \<in> (\<Union>x \<in> set_mset M. (#) x ` {r. mset r = M - {#x#}})" by auto
next
  fix r assume "r \<in> (\<Union>x \<in> set_mset M. (#) x ` {r. mset r = M - {#x#}})"
  then obtain x r' where "x \<in># M" "mset r' = M - {#x#}" "r = x # r'" by auto
  then show "r \<in> {r. mset r = M}" by simp
qed

lemma card_arrangements_split:
  assumes "M \<noteq> {#}"
  shows "card {r. mset r = M} = (\<Sum>x \<in> set_mset M. card {r. mset r = M - {#x#}})"
proof -
  have "card (\<Union>x \<in> set_mset M. (#) x ` {r. mset r = M - {#x#}})
      = (\<Sum>x \<in> set_mset M. card ((#) x ` {r. mset r = M - {#x#}}))"
    by (rule card_UN_disjoint) (auto simp: finite_arrangements)
  also have "\<dots> = (\<Sum>x \<in> set_mset M. card {r. mset r = M - {#x#}})"
    by (intro sum.cong refl card_image) simp
  finally show ?thesis
    by (simp only: arrangements_split[OF assms])
qed

definition multiplicity_factorials :: "'a multiset \<Rightarrow> nat" where
  "multiplicity_factorials M = (\<Prod>y \<in> set_mset M. fact (count M y))"

lemma multiplicity_factorials_remove:
  assumes "x \<in># M"
  shows "multiplicity_factorials M = count M x * multiplicity_factorials (M - {#x#})"
proof -
  let ?N = "M - {#x#}"
  have sub: "set_mset ?N \<subseteq> set_mset M"
    by (auto dest: in_diffD)
  have one: "fact (count ?N y) = (1::nat)" if "y \<in> set_mset M - set_mset ?N" for y
  proof -
    from that have "y \<notin># ?N" by simp
    then have "count ?N y = 0" by (simp only: not_in_iff)
    then show ?thesis by (simp only: fact_0)
  qed
  have "multiplicity_factorials ?N = (\<Prod>y \<in> set_mset M. fact (count ?N y))"
    unfolding multiplicity_factorials_def
    using sub one by (intro prod.mono_neutral_left) simp_all
  also have "\<dots> = fact (count ?N x) * (\<Prod>y \<in> set_mset M - {x}. fact (count ?N y))"
    using assms by (intro prod.remove) simp_all
  also have "(\<Prod>y \<in> set_mset M - {x}. fact (count ?N y))
      = (\<Prod>y \<in> set_mset M - {x}. fact (count M y))"
    by (intro prod.cong refl) auto
  finally have 1: "multiplicity_factorials ?N
      = fact (count M x - 1) * (\<Prod>y \<in> set_mset M - {x}. fact (count M y))"
    by simp
  have 2: "multiplicity_factorials M
      = fact (count M x) * (\<Prod>y \<in> set_mset M - {x}. fact (count M y))"
    unfolding multiplicity_factorials_def using assms by (intro prod.remove) simp_all
  from assms have "count M x > 0" by simp
  then obtain c where c: "count M x = Suc c" by (cases "count M x") simp_all
  show ?thesis
    unfolding 1 2 c by (simp add: algebra_simps)
qed

lemma card_arrangements:
  "card {r. mset r = M} * multiplicity_factorials M = fact (size M)"
proof (induction "size M" arbitrary: M)
  case 0
  then have "M = {#}" by simp
  then show ?case by (simp add: multiplicity_factorials_def)
next
  case (Suc n)
  then have ne: "M \<noteq> {#}" by auto
  have "card {r. mset r = M} * multiplicity_factorials M
      = (\<Sum>x \<in> set_mset M. card {r. mset r = M - {#x#}} * multiplicity_factorials M)"
    by (simp add: card_arrangements_split[OF ne] sum_distrib_right)
  also have "\<dots> = (\<Sum>x \<in> set_mset M. count M x * fact n)"
  proof (intro sum.cong refl)
    fix x assume x: "x \<in># M"
    with Suc.hyps(2) have "n = size (M - {#x#})" by (simp add: size_Diff_singleton)
    then have "card {r. mset r = M - {#x#}} * multiplicity_factorials (M - {#x#}) = fact n"
      using Suc.hyps(1) by blast
    then have "count M x * (card {r. mset r = M - {#x#}} * multiplicity_factorials (M - {#x#}))
        = count M x * fact n"
      by (rule arg_cong)
    then show "card {r. mset r = M - {#x#}} * multiplicity_factorials M = count M x * fact n"
      by (simp only: multiplicity_factorials_remove[OF x] mult.left_commute)
  qed
  also have "\<dots> = size M * fact n"
    by (simp add: size_multiset_overloaded_eq sum_distrib_right)
  finally show ?case using Suc.hyps(2)[symmetric] by simp
qed

lemma LexNextInt_True:
  assumes "LexNextInt p = Inr (True, q)"
  shows "mset q = mset p" "p < q" "\<And>r. mset r = mset p \<Longrightarrow> p < r \<Longrightarrow> q \<le> r"
proof -
  from assms have "\<not> sorted_wrt (\<ge>) p"
    using LexNext_descending[of p] by (auto simp: LexNextInt_eq)
  from LexNext_successor[OF this] assms
  have "mset q = mset p \<and> p < q \<and> (\<forall>r. mset r = mset p \<and> p < r \<longrightarrow> q \<le> r)"
    by (auto simp: LexNextInt_eq)
  then show "mset q = mset p" "p < q" "\<And>r. mset r = mset p \<Longrightarrow> p < r \<Longrightarrow> q \<le> r"
    by blast+
qed

lemma LexNextInt_False:
  assumes "LexNextInt p = Inr (False, q)"
  shows "q = p" "sorted_wrt (\<ge>) p"
proof -
  have d: "sorted_wrt (\<ge>) p"
    using LexNext_successor[of p] assms by (auto simp: LexNextInt_eq)
  then show "sorted_wrt (\<ge>) p" .
  from LexNext_descending[OF d] assms show "q = p" by (simp add: LexNextInt_eq)
qed

lemma LexNextInt_no_panic: "LexNextInt p \<noteq> Inl e"
proof (cases "sorted_wrt (\<ge>) p")
  case True
  from LexNext_descending[OF this] show ?thesis by (simp add: LexNextInt_eq)
next
  case False
  from LexNext_successor[OF this] show ?thesis by (auto simp: LexNextInt_eq)
qed

text \<open>
  The caller's loop of the claim: visit \<open>p\<close>, call \<open>LexNextInt(p)\<close>, go on while it
  returns true. The result is the list of arrangements visited, in order.
\<close>

function visit_all :: "int list \<Rightarrow> error + int list list" where
  "visit_all p =
     (case LexNextInt p of
        Inl e \<Rightarrow> Inl e
      | Inr (again, q) \<Rightarrow>
          if again then (case visit_all q of Inl e \<Rightarrow> Inl e | Inr vs \<Rightarrow> Inr (p # vs))
          else Inr [p])"
  by pat_completeness auto
termination
proof (relation "measure (\<lambda>p. card {r. mset r = mset p \<and> p < r})")
  fix p x2 again q
  assume "LexNextInt p = Inr x2" "(again, q) = x2" "again"
  then have nx: "LexNextInt p = Inr (True, q)" by simp
  note f = LexNextInt_True[OF nx]
  have "{r. mset r = mset q \<and> q < r} \<subset> {r. mset r = mset p \<and> p < r}"
    using f(1,2) by (auto dest: less_trans)
  moreover have "finite {r. mset r = mset p \<and> p < r}"
    using finite_arrangements[of "mset p"] by simp
  ultimately show "(q, p) \<in> measure (\<lambda>p. card {r. mset r = mset p \<and> p < r})"
    by (simp add: psubset_card_mono)
qed simp

declare visit_all.simps [simp del]

lemma visit_all_from:
  "\<exists>vs. visit_all p = Inr (p # vs) \<and> sorted_wrt (<) (p # vs) \<and>
        set (p # vs) = {r. mset r = mset p \<and> p \<le> r} \<and> sorted_wrt (\<ge>) (last (p # vs))"
proof (induction p rule: visit_all.induct)
  case (1 p)
  obtain again q where nx: "LexNextInt p = Inr (again, q)"
    using LexNextInt_no_panic[of p] by (cases "LexNextInt p") auto
  show ?case
  proof (cases again)
    case False
    with nx have "LexNextInt p = Inr (False, q)" by simp
    then have d: "sorted_wrt (\<ge>) p" by (rule LexNextInt_False)
    have "{r. mset r = mset p \<and> p \<le> r} = {p}"
      using descending_greatest[OF d] by (auto dest: antisym)
    with nx False d show ?thesis
      by (subst visit_all.simps) simp
  next
    case True
    with nx have nx: "LexNextInt p = Inr (True, q)" by simp
    note f = LexNextInt_True[OF nx]
    from "1.IH"[OF nx refl] True obtain vs where vs: "visit_all q = Inr (q # vs)"
      "sorted_wrt (<) (q # vs)" "set (q # vs) = {r. mset r = mset q \<and> q \<le> r}"
      "sorted_wrt (\<ge>) (last (q # vs))"
      by auto
    have "{r. mset r = mset p \<and> p \<le> r} = insert p {r. mset r = mset q \<and> q \<le> r}"
      using f by (auto simp: le_less dest: less_trans)
    then have s: "set (p # q # vs) = {r. mset r = mset p \<and> p \<le> r}"
      using vs(3) by simp
    have "\<forall>r \<in> set (q # vs). p < r"
      unfolding vs(3) using f(2) by auto
    with vs(2) have o: "sorted_wrt (<) (p # q # vs)" by simp
    from nx vs(1) have "visit_all p = Inr (p # q # vs)"
      by (subst visit_all.simps) simp
    with s o vs(4) show ?thesis by simp
  qed
qed

lemma multiplicity_factorials_mset:
  "multiplicity_factorials (mset p) = (\<Prod>x \<in> set p. fact (count_list p x))"
  by (simp add: multiplicity_factorials_def count_mset)

lemma multiplicity_factorials_pos: "0 < multiplicity_factorials M"
  by (simp add: multiplicity_factorials_def)

text \<open>
  C5. For every int slice \<open>p\<close> in sorted-ascending order, of any length and with any
  multiplicities: calling \<open>LexNextInt\<close> until it returns false terminates without a
  panic and visits exactly \<open>n! / \<Prod> multiplicity!\<close> arrangements, pairwise distinct,
  namely all arrangements of the multiset; each is lexicographically strictly greater
  than the one before; the first is \<open>p\<close> and the last is the sorted-descending one.
\<close>

theorem visit_all_sorted:
  assumes "sorted p"
  shows "\<exists>vs. visit_all p = Inr vs \<and>
           length vs = fact (length p) div (\<Prod>x \<in> set p. fact (count_list p x)) \<and>
           distinct vs \<and> set vs = {r. mset r = mset p} \<and> sorted_wrt (<) vs \<and>
           hd vs = p \<and> last vs = rev p"
proof -
  from visit_all_from[of p] obtain vs where vs: "visit_all p = Inr (p # vs)"
    "sorted_wrt (<) (p # vs)" "set (p # vs) = {r. mset r = mset p \<and> p \<le> r}"
    "sorted_wrt (\<ge>) (last (p # vs))"
    by blast
  have all: "set (p # vs) = {r. mset r = mset p}"
    unfolding vs(3) using ascending_least[OF assms] by auto
  from vs(2) have dist: "distinct (p # vs)"
    by (simp only: strict_sorted_iff)
  then have "length (p # vs) = card {r. mset r = mset p}"
    using all distinct_card by metis
  then have "length (p # vs) * multiplicity_factorials (mset p) = fact (length p)"
    using card_arrangements[of "mset p"] by simp
  then have "fact (length p) div multiplicity_factorials (mset p) = length (p # vs)"
    using multiplicity_factorials_pos[of "mset p"]
    by (metis nonzero_mult_div_cancel_right less_numeral_extra(3))
  then have len: "length (p # vs) = fact (length p) div (\<Prod>x \<in> set p. fact (count_list p x))"
    by (simp only: multiplicity_factorials_mset)
  have "last (p # vs) \<in> set (p # vs)" by (rule last_in_set) simp
  with all have m: "mset (last (p # vs)) = mset p" by blast
  from assms have d: "sorted_wrt (\<ge>) (rev p)"
    by (simp add: sorted_wrt_rev)
  have "last (p # vs) \<le> rev p"
    using d m by (intro descending_greatest) simp_all
  moreover have "rev p \<le> last (p # vs)"
    using vs(4) m by (intro descending_greatest) simp_all
  ultimately have "last (p # vs) = rev p" by (rule antisym)
  with vs(1,2) all dist len show ?thesis
    by (intro exI[of _ "p # vs"]) simp
qed


theorem visit_all_sorted_witness:
  "sorted [1, 2, 2 :: int] \<and>
   visit_all [1, 2, 2] = Inr [[1, 2, 2], [2, 1, 2], [2, 2, 1]] \<and>
   length [[1, 2, 2], [2, 1, 2], [2, 2, 1 :: int]]
     = fact (length [1, 2, 2 :: int]) div (\<Prod>x \<in> set [1, 2, 2 :: int]. fact (count_list [1, 2, 2] x)) \<and>
   last [[1, 2, 2], [2, 1, 2], [2, 2, 1 :: int]] = rev [1, 2, 2]"
proof -
  have s: "sorted [1, 2, 2 :: int]" by simp
  have e: "visit_all [1, 2, 2] = Inr [[1, 2, 2], [2, 1, 2], [2, 2, 1]]" by code_simp
  from visit_all_sorted[OF s] obtain vs where "visit_all [1, 2, 2] = Inr vs"
    and "length vs = fact (length [1, 2, 2 :: int]) div (\<Prod>x \<in> set [1, 2, 2 :: int]. fact (count_list [1, 2, 2] x))"
    and "last vs = rev [1, 2, 2]"
    by blast
  with s e show ?thesis by simp
qed


section \<open>Rank and unrank in lexicographic order (\<open>LexRank\<close>, \<open>LexPerm\<close>)\<close>

text \<open>\<open>t[i]\<close> as a read, and \<open>t[i] = v\<close> as a write, each with Go's bounds check.\<close>

definition at :: "'a list \<Rightarrow> int \<Rightarrow> error + 'a" where
  "at t i = (if in_range t i then Inr (t ! nat i) else Inl IndexOutOfRange)"

definition store :: "'a list \<Rightarrow> int \<Rightarrow> 'a \<Rightarrow> error + 'a list" where
  "store t i v = (if in_range t i then Inr (t[nat i := v]) else Inl IndexOutOfRange)"

text \<open>
  \<open>log2\<close>: \<open>x--\<close>, then \<open>for ; x > 0xff; x >>= 8 { n += 8 }\<close> and
  \<open>for ; x > 0; x >>= 1 { n++ }\<close>. The shifts are arithmetic shifts of a signed
  \<open>int\<close>; both loops only run on positive \<open>x\<close>, where they are divisions.
\<close>

function log2_bytes :: "int \<Rightarrow> nat \<Rightarrow> int \<times> nat" where
  "log2_bytes x n = (if x > 255 then log2_bytes (x div 256) (n + 8) else (x, n))"
  by pat_completeness auto
termination
  by (relation "measure (\<lambda>(x, n). nat x)") auto

function log2_bits :: "int \<Rightarrow> nat \<Rightarrow> nat" where
  "log2_bits x n = (if x > 0 then log2_bits (x div 2) (n + 1) else n)"
  by pat_completeness auto
termination
  by (relation "measure (\<lambda>(x, n). nat x)") auto

declare log2_bytes.simps [simp del] log2_bits.simps [simp del]

definition log2 :: "int \<Rightarrow> nat" where
  "log2 x = (case log2_bytes (x - 1) 0 of (x', n) \<Rightarrow> log2_bits x' n)"

subsection \<open>\<open>LexRank\<close>\<close>

text \<open>
  The inner loop of \<open>LexRank\<close>, \<open>k\<close> times:
  \<open>if nd&1 == 1 { c -= t[nd&^1] }; t[nd]++; nd >>= 1\<close>.
  Inside the \<open>if\<close>, \<open>nd\<close> is odd and \<open>nd&^1\<close> is \<open>nd - 1\<close>.
\<close>

fun rank_walk :: "nat \<Rightarrow> int list \<Rightarrow> int \<Rightarrow> int \<Rightarrow> error + (int list \<times> int \<times> int)" where
  "rank_walk 0 t nd c = Inr (t, nd, c)"
| "rank_walk (Suc j) t nd c =
     (case (if nd mod 2 = 1 then (case at t (nd - 1) of Inl e \<Rightarrow> Inl e | Inr v \<Rightarrow> Inr (c - v))
            else Inr c) of
        Inl e \<Rightarrow> Inl e
      | Inr c' \<Rightarrow>
          (case at t nd of
             Inl e \<Rightarrow> Inl e
           | Inr w \<Rightarrow> rank_walk j (t[nat nd := w + 1]) (nd div 2) c'))"

text \<open>
  \<open>for i, c := range p\<close>: \<open>n\<close> is \<open>len(p)\<close>, \<open>i\<close> the index of \<open>c\<close>, \<open>r\<close> the
  \<open>big.Int\<close> accumulator.
\<close>

fun rank_loop :: "nat \<Rightarrow> nat \<Rightarrow> int list \<Rightarrow> nat \<Rightarrow> int list \<Rightarrow> int \<Rightarrow> error + int" where
  "rank_loop k n [] i t r = Inr r"
| "rank_loop k n (c # cs) i t r =
     (case rank_walk k t (2 ^ k + c) c of
        Inl e \<Rightarrow> Inl e
      | Inr (t1, nd, c1) \<Rightarrow>
          (case at t1 nd of
             Inl e \<Rightarrow> Inl e
           | Inr w \<Rightarrow> rank_loop k n cs (i + 1) (t1[nat nd := w + 1]) (r * (int n - int i) + c1)))"

definition LexRank :: "int list \<Rightarrow> error + int" where
  "LexRank p =
     (let k = log2 (int (length p));
          t = replicate (2 ^ (k + 1)) 0
      in rank_loop k (length p) p 0 t 0)"

subsection \<open>\<open>NewFact\<close>\<close>

text \<open>
  Modelled from the spec: \<open>NewFact\<close>, the conversion of a rank to factorial-base digits,
  is not among the sources. The spec: ``first verify \<open>0 \<le> r < n!\<close>; fail distinctly and
  leave no output on violation. Convert \<open>r\<close> to factoradic digits [...] via repeated
  division''; a digit of place value \<open>m!\<close> has range \<open>[0, m]\<close>. The spec counts \<open>n\<close>
  digits from the most significant one, the last of place value \<open>0!\<close> and always 0.
  \<open>LexPerm\<close> reads \<open>f\<close> from its last element down to \<open>f[0]\<close>, placing \<open>p[0]\<close> first, and
  writes \<open>p[len(f)]\<close> after that loop: the slice it consumes holds the \<open>n - 1\<close> digits of
  place values \<open>1!, ..., (n-1)!\<close> in this order, without the constant last digit. The
  model returns the spec's digits in that layout; with it \<open>LexPerm\<close> yields the spec's
  examples for \<open>n = 4\<close> (rank 0 gives \<open>[0,1,2,3]\<close>, rank 23 gives \<open>[3,2,1,0]\<close>).
\<close>

definition NewFact :: "int \<Rightarrow> nat \<Rightarrow> int list \<times> bool" where
  "NewFact i n =
     (if i < 0 \<or> i \<ge> fact n then ([], False)
      else (map (\<lambda>j. (i div fact (j + 1)) mod (int j + 2)) [0..<n - 1], True))"

subsection \<open>\<open>LexPerm\<close>\<close>

text \<open>
  The tree of counts: \<open>for i := uint(0); i <= k; i++ { for j, end := uint(1), uint(1)<<i;
  j <= end; j++ { t[end+j-1] = 1 << (k - i) } }\<close>. The indices \<open>end+j-1\<close> run through
  \<open>2^i .. 2^(i+1) - 1\<close>, inside the \<open>2^(k+1)\<close> cells of \<open>t\<close>.
\<close>

definition init_tree :: "nat \<Rightarrow> int list" where
  "init_tree k =
     fold (\<lambda>i t. fold (\<lambda>j t. t[2 ^ i + j - 1 := 2 ^ (k - i)]) [1..<Suc (2 ^ i)] t)
       [0..<Suc k] (replicate (2 ^ (k + 1)) 0)"

text \<open>
  The inner loop of the digit loop, \<open>k\<close> times:
  \<open>t[nd]--; nd <<= 1; if d >= t[nd] { d -= t[nd]; nd++ }\<close>.
\<close>

fun descend :: "nat \<Rightarrow> int list \<Rightarrow> int \<Rightarrow> int \<Rightarrow> error + (int list \<times> int)" where
  "descend 0 t nd d = Inr (t, nd)"
| "descend (Suc j) t nd d =
     (case at t nd of
        Inl e \<Rightarrow> Inl e
      | Inr v \<Rightarrow>
          (let t1 = t[nat nd := v - 1]; nd1 = 2 * nd in
           case at t1 nd1 of
             Inl e \<Rightarrow> Inl e
           | Inr w \<Rightarrow> if d \<ge> w then descend j t1 (nd1 + 1) (d - w) else descend j t1 nd1 d))"

text \<open>
  \<open>for i := len(f) - 1; i >= 0; i-- { d := f[i]; nd := 1; ...; t[nd] = 0;
  p[len(f)-i-1] = nd - k2 }\<close>. The first argument counts the indices still to do:
  \<open>Suc i\<close> runs the body at index \<open>i\<close>, and 0 is \<open>i < 0\<close>.
\<close>

fun digit_loop :: "nat \<Rightarrow> int list \<Rightarrow> nat \<Rightarrow> int list \<Rightarrow> int list \<Rightarrow> error + (int list \<times> int list)" where
  "digit_loop k f 0 t p = Inr (t, p)"
| "digit_loop k f (Suc i) t p =
     (case descend k t 1 (f ! i) of
        Inl e \<Rightarrow> Inl e
      | Inr (t1, nd) \<Rightarrow>
          (case store t1 nd 0 of
             Inl e \<Rightarrow> Inl e
           | Inr t2 \<Rightarrow>
               (case store p (int (length f) - int i - 1) (nd - 2 ^ k) of
                  Inl e \<Rightarrow> Inl e
                | Inr p1 \<Rightarrow> digit_loop k f i t2 p1)))"

text \<open>The last loop, \<open>k\<close> times: \<open>nd <<= 1; nd += 1 - t[nd]\<close>.\<close>

fun last_walk :: "nat \<Rightarrow> int list \<Rightarrow> int \<Rightarrow> error + int" where
  "last_walk 0 t nd = Inr nd"
| "last_walk (Suc j) t nd =
     (case at t (2 * nd) of
        Inl e \<Rightarrow> Inl e
      | Inr w \<Rightarrow> last_walk j t (2 * nd + (1 - w)))"

text \<open>
  \<open>LexPerm\<close> from \<open>p := make(ZPerm, n)\<close> on, given the digits \<open>f\<close>. The lines
  printed by \<open>fmt.Println\<close> are no part of the result and are left out. The result is
  the pair that \<open>LexPerm\<close> returns; \<open>None\<close> is the nil slice.
\<close>

definition LexPerm_body :: "int list \<Rightarrow> nat \<Rightarrow> error + (int list option \<times> bool)" where
  "LexPerm_body f n =
     (let p = replicate n 0;
          k = log2 (int n);
          t = init_tree k
      in case digit_loop k f (length f) t p of
           Inl e \<Rightarrow> Inl e
         | Inr (t1, p1) \<Rightarrow>
             (case last_walk k t1 1 of
                Inl e \<Rightarrow> Inl e
              | Inr nd \<Rightarrow>
                  (case store p1 (int (length f)) (nd - 2 ^ k) of
                     Inl e \<Rightarrow> Inl e
                   | Inr p2 \<Rightarrow> Inr (Some p2, True))))"

definition LexPerm :: "int \<Rightarrow> nat \<Rightarrow> error + (int list option \<times> bool)" where
  "LexPerm i n =
     (case NewFact i n of
        (f, ok) \<Rightarrow> if \<not> ok then Inr (None, False) else LexPerm_body f n)"


lemma LexPerm_body_zero: "LexPerm_body f 0 = Inl IndexOutOfRange"
proof -
  have k: "log2 0 = 0" by code_simp
  have t: "init_tree 0 = [0, 1]" by code_simp
  show ?thesis
  proof (cases "length f")
    case 0
    then show ?thesis
      by (simp add: LexPerm_body_def k t store_def at_def in_range_def Let_def)
  next
    case (Suc i)
    then show ?thesis
      by (simp add: LexPerm_body_def k t store_def at_def in_range_def Let_def)
  qed
qed

text \<open>
  C7. For every \<open>n \<ge> 0\<close> and every integer \<open>r\<close> with \<open>r < 0\<close> or \<open>r \<ge> n!\<close>,
  \<open>LexPerm(r, n)\<close> returns the nil permutation together with false: no partial output.
  The range check is the one of \<open>NewFact\<close> as the spec states it.
\<close>

theorem LexPerm_out_of_range:
  "r < 0 \<or> r \<ge> fact n \<Longrightarrow> LexPerm r n = Inr (None, False)"
  by (auto simp: LexPerm_def NewFact_def)

theorem LexPerm_out_of_range_witness:
  "(-1 :: int) < 0 \<and> LexPerm (-1) 3 = Inr (None, False) \<and>
   (6 :: int) \<ge> fact 3 \<and> LexPerm 6 3 = Inr (None, False) \<and>
   (1 :: int) \<ge> fact 0 \<and> LexPerm 1 0 = Inr (None, False)"
proof -
  have a: "(-1 :: int) < 0 \<or> (-1 :: int) \<ge> fact 3" by simp
  have b: "(6 :: int) < 0 \<or> (6 :: int) \<ge> fact 3" by (simp add: fact_numeral)
  have c: "(1 :: int) < 0 \<or> (1 :: int) \<ge> fact 0" by simp
  show ?thesis
    using LexPerm_out_of_range[OF a] LexPerm_out_of_range[OF b] LexPerm_out_of_range[OF c]
    by (simp add: fact_numeral)
qed

text \<open>
  C2, at the inputs where the code departs from the round trip. The permutation
  \<open>[0,1,2,3,4]\<close> has rank 0, and \<open>LexPerm(0, 5)\<close> returns \<open>[0,1,2,3,3]\<close>, which is not
  a permutation: the last loop of \<open>LexPerm\<close> steps by \<open>1 - t[nd]\<close>, which is right only
  where the count \<open>t[nd]\<close> of the left child is 0 or 1, and for \<open>n = 5\<close> the left child
  over the leaves 4 and 5 still counts 2 (the value 4 and the padding leaf 5).
  \<open>LexPerm(0, 0)\<close> panics on \<open>p[len(f)]\<close>, the slice \<open>p\<close> being empty.
\<close>

theorem LexPerm_not_inverse_of_LexRank:
  "LexRank [0, 1, 2, 3, 4] = Inr 0 \<and> LexPerm 0 5 = Inr (Some [0, 1, 2, 3, 3], True) \<and>
   LexPerm 0 0 = Inl IndexOutOfRange"
  by code_simp

text \<open>
  C8, evaluated. For \<open>n = 1\<close> the rank of \<open>[0]\<close> is 0 and \<open>LexPerm(0, 1)\<close> returns
  \<open>[0]\<close>; for \<open>n = 0\<close> the rank of the empty permutation is 0, and \<open>LexPerm(0, 0)\<close> panics
  with an index out of range instead of returning the empty permutation. By
  \<open>LexPerm_body_zero\<close> it does so whatever digits \<open>NewFact\<close> hands over.
\<close>

theorem LexPerm_sizes_zero_one:
  "LexRank [] = Inr 0 \<and> LexRank [0] = Inr 0 \<and> LexPerm 0 1 = Inr (Some [0], True) \<and>
   LexPerm 0 0 = Inl IndexOutOfRange"
  by code_simp

text \<open>The spec's examples for \<open>n = 4\<close>.\<close>

lemma LexPerm_spec_examples:
  "LexPerm 0 4 = Inr (Some [0, 1, 2, 3], True) \<and> LexPerm 23 4 = Inr (Some [3, 2, 1, 0], True)"
  by code_simp


section \<open>Iterative plain changes with Even's speedup (\<open>SJTE\<close>)\<close>

text \<open>
  The closure returned by \<open>SJTE(n)\<close> captures the two slices \<open>p\<close> and \<open>d\<close> of length
  \<open>n + 2\<close>; its state is the pair \<open>(p, d)\<close>. The caller's slice is the view
  \<open>p[1 : n+1]\<close> of \<open>p\<close>.
\<close>

type_synonym sjte_state = "int list \<times> int list"

text \<open>
  \<open>p := make([]int, n+2); d := make([]int, n+2); p[0] = n;
  for i := range p[1:] { p[i+1] = i; d[i] = -1 }\<close>.
  The range has the \<open>n + 1\<close> indices \<open>0 .. n\<close>, so all these writes are in bounds.
\<close>

definition SJTE :: "nat \<Rightarrow> sjte_state" where
  "SJTE n =
     fold (\<lambda>i (p, d). (p[i + 1 := int i], d[i := - 1])) [0..<n + 1]
       ((replicate (n + 2) 0)[0 := int n], replicate (n + 2) 0)"

definition view :: "nat \<Rightarrow> sjte_state \<Rightarrow> int list" where
  "view n s = take n (drop 1 (fst s))"

text \<open>
  \<open>for i := 1; i <= n; i++ { if v := p[i]; v > max && v > p[i+d[i]] { max = v; k = i } }\<close>,
  over the list of the indices still to visit. \<open>&&\<close> reads \<open>p[i+d[i]]\<close> only when
  \<open>v > max\<close>.
\<close>

fun find_mobile :: "int list \<Rightarrow> int list \<Rightarrow> nat list \<Rightarrow> int \<Rightarrow> nat \<Rightarrow> error + (int \<times> nat)" where
  "find_mobile p d [] mx k = Inr (mx, k)"
| "find_mobile p d (i # is) mx k =
     (case at p (int i) of
        Inl e \<Rightarrow> Inl e
      | Inr v \<Rightarrow>
          if v > mx then
            (case at d (int i) of
               Inl e \<Rightarrow> Inl e
             | Inr di \<Rightarrow>
                 (case at p (int i + di) of
                    Inl e \<Rightarrow> Inl e
                  | Inr w \<Rightarrow> if v > w then find_mobile p d is v i else find_mobile p d is mx k))
          else find_mobile p d is mx k)"

text \<open>\<open>for i := 3; i <= n; i++ { d[i] = -1 }\<close>\<close>

fun reset_dirs :: "int list \<Rightarrow> nat list \<Rightarrow> error + int list" where
  "reset_dirs d [] = Inr d"
| "reset_dirs d (i # is) =
     (case store d (int i) (- 1) of Inl e \<Rightarrow> Inl e | Inr d' \<Rightarrow> reset_dirs d' is)"

text \<open>\<open>for i := 1; i <= n; i++ { if p[i] > max { d[i] = -d[i] } }\<close>\<close>

fun flip_dirs :: "int list \<Rightarrow> int \<Rightarrow> int list \<Rightarrow> nat list \<Rightarrow> error + int list" where
  "flip_dirs p mx d [] = Inr d"
| "flip_dirs p mx d (i # is) =
     (case at p (int i) of
        Inl e \<Rightarrow> Inl e
      | Inr v \<Rightarrow>
          if v > mx then
            (case at d (int i) of
               Inl e \<Rightarrow> Inl e
             | Inr di \<Rightarrow> flip_dirs p mx (d[i := - di]) is)
          else flip_dirs p mx d is)"

text \<open>
  One call of the step function. In \<open>p[1], p[2] = 0, 1\<close> the two writes happen in
  this order, each with its bounds check. In \<open>p[k], p[nx] = p[nx], max\<close> and
  \<open>d[k], d[nx] = d[nx], d[k]\<close> the right-hand sides are read first, with their
  bounds checks; the writes then go to indices that have just been read.
\<close>

definition step :: "nat \<Rightarrow> sjte_state \<Rightarrow> error + (bool \<times> sjte_state)" where
  "step n s =
     (case s of (p, d) \<Rightarrow>
      case find_mobile p d [1..<n + 1] (- 1) 0 of
        Inl e \<Rightarrow> Inl e
      | Inr (mx, k) \<Rightarrow>
          if k = 0 then
            (case store p 1 0 of
               Inl e \<Rightarrow> Inl e
             | Inr p1 \<Rightarrow>
                 (case store p1 2 1 of
                    Inl e \<Rightarrow> Inl e
                  | Inr p2 \<Rightarrow>
                      (case reset_dirs d [3..<n + 1] of
                         Inl e \<Rightarrow> Inl e
                       | Inr d' \<Rightarrow> Inr (False, (p2, d')))))
          else
            (case at d (int k) of
               Inl e \<Rightarrow> Inl e
             | Inr dk \<Rightarrow>
                 (let nx = int k + dk in
                  case at p nx of
                    Inl e \<Rightarrow> Inl e
                  | Inr pnx \<Rightarrow>
                      (let p' = (p[k := pnx])[nat nx := mx] in
                       case at d nx of
                         Inl e \<Rightarrow> Inl e
                       | Inr dnx \<Rightarrow>
                           (let d' = (d[k := dnx])[nat nx := dk] in
                            case flip_dirs p' mx d' [1..<n + 1] of
                              Inl e \<Rightarrow> Inl e
                            | Inr d'' \<Rightarrow> Inr (True, (p', d'')))))))"

text \<open>
  \<open>m\<close> successive calls: the booleans returned, in order, and the state after the
  last call. A panic ends the run.
\<close>

fun run :: "nat \<Rightarrow> nat \<Rightarrow> sjte_state \<Rightarrow> error + (bool list \<times> sjte_state)" where
  "run n 0 s = Inr ([], s)"
| "run n (Suc m) s =
     (case step n s of
        Inl e \<Rightarrow> Inl e
      | Inr (b, s') \<Rightarrow>
          (case run n m s' of
             Inl e \<Rightarrow> Inl e
           | Inr (bs, s'') \<Rightarrow> Inr (b # bs, s'')))"


text \<open>
  C10, at \<open>n = 0\<close>. The slices have length 2; the scan finds nothing, so \<open>k == 0\<close>, and
  \<open>p[1], p[2] = 0, 1\<close> writes \<open>p[2]\<close> outside the slice: the first call panics and
  returns no boolean.
\<close>

theorem step_zero_panics: "step 0 (SJTE 0) = Inl IndexOutOfRange"
  by code_simp

text \<open>
  C4 as stated fails already for \<open>n = 2\<close>: of the first \<open>2! = 2\<close> calls the second one
  returns false (and puts the slice back to \<open>[0, 1]\<close>).
\<close>

theorem run_two_counterexample:
  "run 2 2 (SJTE 2) = Inr ([True, False], SJTE 2) \<and> view 2 (SJTE 2) = [0, 1]"
  by code_simp


section \<open>Recursive plain changes (\<open>SJTRecursive\<close>, \<open>sjtr\<close>)\<close>

text \<open>
  \<open>sjtr(n)\<close> returns a closure. For \<open>n\<close> in \<open>{0, 1}\<close> the closure captures the one
  variable \<open>perm\<close>; otherwise it captures \<open>n\<close>, \<open>perm\<close>, \<open>i\<close>, \<open>d\<close> and the closure
  \<open>p0 = sjtr(n - 1)\<close>. A closure is modelled by the values it captures.
\<close>

datatype sjtr_closure =
  Leaf bool
| Node nat bool int int sjtr_closure

fun sjtr :: "nat \<Rightarrow> sjtr_closure" where
  "sjtr 0 = Leaf True"
| "sjtr (Suc 0) = Leaf True"
| "sjtr (Suc (Suc m)) = Node (Suc (Suc m)) True (int (Suc (Suc m))) 0 (sjtr (Suc m))"

text \<open>
  \<open>p[i], p[j] = p[j], p[i]\<close> with the bounds checks of its index expressions.
\<close>

definition swap_checked :: "'a list \<Rightarrow> int \<Rightarrow> int \<Rightarrow> error + 'a list" where
  "swap_checked p i j =
     (if in_range p i \<and> in_range p j then Inr (swap p (nat i) (nat j)) else Inl IndexOutOfRange)"

text \<open>
  One call of a closure on a slice: the boolean returned, the closure's variables after
  the call, and the slice after the call. The sub-slices \<open>p[:i]\<close> and \<open>p[1:]\<close> share
  their cells with \<open>p\<close>: what the inner closure does to them is put back in place. A
  slice expression whose bound lies outside \<open>0 .. len(p)\<close> panics.
\<close>

fun call :: "sjtr_closure \<Rightarrow> 'a list \<Rightarrow> error + (bool \<times> sjtr_closure \<times> 'a list)" where
  "call (Leaf perm) p = Inr (perm, Leaf False, p)"
| "call (Node n perm i d p0) p =
     (if \<not> perm then Inr (perm, Node n perm i d p0, p)
      else if i = int n then
        (let i' = i - 1 in
         if i' < 0 \<or> int (length p) < i' then Inl IndexOutOfRange
         else
           (case call p0 (take (nat i') p) of
              Inl e \<Rightarrow> Inl e
            | Inr (r, p0', q) \<Rightarrow> Inr (r, Node n r i' (- 1) p0', q @ drop (nat i') p)))
      else if i = 0 then
        (let i' = i + 1 in
         if length p < 1 then Inl IndexOutOfRange
         else
           (case call p0 (drop 1 p) of
              Inl e \<Rightarrow> Inl e
            | Inr (r, p0', q) \<Rightarrow>
                (let p1 = take 1 p @ q in
                 if \<not> r then
                   (case swap_checked p1 0 1 of
                      Inl e \<Rightarrow> Inl e
                    | Inr p2 \<Rightarrow> Inr (r, Node n r i' 1 p0', p2))
                 else Inr (r, Node n r i' 1 p0', p1))))
      else
        (case swap_checked p i (i - 1) of
           Inl e \<Rightarrow> Inl e
         | Inr p1 \<Rightarrow> Inr (perm, Node n perm (i + d) d p0, p1)))"

text \<open>
  \<open>SJTRecursive(p)\<close>: the iterator is \<open>f := sjtr(len(p))\<close> together with the slice \<open>p\<close>
  it is called on every time.
\<close>

definition SJTRecursive :: "'a list \<Rightarrow> sjtr_closure \<times> 'a list" where
  "SJTRecursive p = (sjtr (length p), p)"

text \<open>
  \<open>m\<close> successive calls of the iterator: for each call the boolean it returned and
  the slice as it was after the call; and the closure after the last call.
\<close>

fun trace :: "nat \<Rightarrow> sjtr_closure \<Rightarrow> 'a list \<Rightarrow> error + ((bool \<times> 'a list) list \<times> sjtr_closure)" where
  "trace 0 g p = Inr ([], g)"
| "trace (Suc m) g p =
     (case call g p of
        Inl e \<Rightarrow> Inl e
      | Inr (b, g', p') \<Rightarrow>
          (case trace m g' p' of
             Inl e \<Rightarrow> Inl e
           | Inr (tr, g'') \<Rightarrow> Inr ((b, p') # tr, g'')))"

definition calls :: "nat \<Rightarrow> sjtr_closure \<times> 'a list \<Rightarrow> error + (bool \<times> 'a list) list" where
  "calls m it = (case trace m (fst it) (snd it) of Inl e \<Rightarrow> Inl e | Inr (tr, g) \<Rightarrow> Inr tr)"

text \<open>\<open>ins j x ys\<close>: the list \<open>ys\<close> with \<open>x\<close> put in at position \<open>j\<close>.\<close>

definition ins :: "nat \<Rightarrow> 'a \<Rightarrow> 'a list \<Rightarrow> 'a list" where
  "ins j x ys = take j ys @ x # drop j ys"

text \<open>\<open>adj a b\<close>: \<open>b\<close> is \<open>a\<close> with the cells of two adjacent positions exchanged.\<close>

definition adj :: "'a list \<Rightarrow> 'a list \<Rightarrow> bool" where
  "adj a b \<longleftrightarrow> (\<exists>j. Suc j < length a \<and> b = swap a j (Suc j))"

lemma length_ins [simp]: "length (ins j x ys) = Suc (length ys)"
  by (simp add: ins_def)

lemma ins_0 [simp]: "ins 0 x ys = x # ys"
  by (simp add: ins_def)

lemma ins_length [simp]: "ins (length ys) x ys = ys @ [x]"
  by (simp add: ins_def)

lemma swap_ins_down:
  assumes "i < length ys"
  shows "swap (ins (Suc i) x ys) (Suc i) i = ins i x ys"
proof -
  from assms have ys: "ys = take i ys @ ys ! i # drop (Suc i) ys"
    by (simp add: id_take_nth_drop)
  have a: "ins (Suc i) x ys = take i ys @ ys ! i # x # drop (Suc i) ys"
    using assms by (simp add: ins_def take_Suc_conv_app_nth)
  have b: "ins i x ys = take i ys @ x # ys ! i # drop (Suc i) ys"
    using assms by (simp add: ins_def Cons_nth_drop_Suc)
  have l: "length (take i ys) = i" using assms by simp
  show ?thesis
    unfolding a b swap_def
    by (simp add: nth_append list_update_append l del: length_take)
qed

lemma swap_ins_up:
  assumes "i < length ys"
  shows "swap (ins i x ys) (Suc i) i = ins (Suc i) x ys"
proof -
  have a: "ins (Suc i) x ys = take i ys @ ys ! i # x # drop (Suc i) ys"
    using assms by (simp add: ins_def take_Suc_conv_app_nth)
  have b: "ins i x ys = take i ys @ x # ys ! i # drop (Suc i) ys"
    using assms by (simp add: ins_def Cons_nth_drop_Suc)
  have l: "length (take i ys) = i" using assms by simp
  show ?thesis
    unfolding a b swap_def
    by (simp add: nth_append list_update_append l del: length_take)
qed

lemma call_length: "call g p = Inr (b, g', p') \<Longrightarrow> length p' = length p"
proof (induction g p arbitrary: b g' p' rule: call.induct)
  case (1 perm p)
  then show ?case by simp
next
  case (2 n perm i d p0 p)
  show ?case
  proof (cases "\<not> perm")
    case True
    with "2.prems" show ?thesis by simp
  next
    case perm: False
    show ?thesis
    proof (cases "i = int n")
      case True
      with perm "2.prems" obtain r p0' q where c: "call p0 (take (nat (i - 1)) p) = Inr (r, p0', q)"
        and r: "p' = q @ drop (nat (i - 1)) p" and ok: "\<not> (i - 1 < 0 \<or> int (length p) < i - 1)"
        by (auto simp: Let_def split: if_splits sum.splits)
      from "2.IH"(1)[OF _ True refl _ c] perm ok have "length q = length (take (nat (i - 1)) p)"
        by simp
      with r ok show ?thesis by simp
    next
      case False
      note ne = False
      show ?thesis
      proof (cases "i = 0")
        case True
        with perm ne "2.prems" obtain r p0' q where c: "call p0 (drop 1 p) = Inr (r, p0', q)"
          and ok: "\<not> length p < 1"
          and r: "(\<not> r \<and> swap_checked (take 1 p @ q) 0 1 = Inr p') \<or> (r \<and> p' = take 1 p @ q)"
          by (auto simp: Let_def split: if_splits sum.splits)
        from "2.IH"(2)[OF _ ne True refl _ c] perm ok have "length q = length (drop 1 p)"
          by simp
        with r ok show ?thesis
          by (auto simp: swap_checked_def split: if_splits)
      next
        case False
        with perm ne "2.prems" show ?thesis
          by (auto simp: swap_checked_def split: if_splits sum.splits)
      qed
    qed
  qed
qed

definition last_arr :: "'a list \<Rightarrow> (bool \<times> 'a list) list \<Rightarrow> 'a list" where
  "last_arr p tr = (if tr = [] then p else snd (last tr))"

lemma trace_append:
  "trace (a + b) g p =
     (case trace a g p of
        Inl e \<Rightarrow> Inl e
      | Inr (tr1, g1) \<Rightarrow>
          (case trace b g1 (last_arr p tr1) of
             Inl e \<Rightarrow> Inl e
           | Inr (tr2, g2) \<Rightarrow> Inr (tr1 @ tr2, g2)))"
proof (induction a arbitrary: g p)
  case 0
  show ?case by (simp add: last_arr_def split: sum.splits)
next
  case (Suc a)
  show ?case
  proof (cases "call g p")
    case (Inl e)
    then show ?thesis by simp
  next
    case (Inr r)
    then obtain c g' p' where c: "call g p = Inr (c, g', p')" by (cases r) auto
    show ?thesis
      using Suc[of g' p'] c
      by (auto simp: last_arr_def split: sum.splits)
  qed
qed

lemma trace_length: "trace m g p = Inr (tr, g') \<Longrightarrow> length tr = m"
  by (induction m arbitrary: g p tr) (auto split: sum.splits)

lemma call_default:
  assumes "0 < i" "i < N" "length p = N"
  shows "call (Node N True (int i) d g) p
       = Inr (True, Node N True (int i + d) d g, swap p i (i - 1))"
  using assms by (simp add: swap_checked_def in_range_def nat_diff_distrib' of_nat_diff)

lemma sweep_left:
  assumes "i \<le> length ys" "N = Suc (length ys)"
  shows "trace i (Node N True (int i) (- 1) g) (ins i x ys)
       = Inr (map (\<lambda>j. (True, ins j x ys)) (rev [0..<i]), Node N True 0 (- 1) g)"
  using assms(1)
proof (induction i)
  case 0
  show ?case by simp
next
  case (Suc i)
  have "call (Node N True (int (Suc i)) (- 1) g) (ins (Suc i) x ys)
      = Inr (True, Node N True (int (Suc i) + (- 1)) (- 1) g, swap (ins (Suc i) x ys) (Suc i) (Suc i - 1))"
    using Suc.prems assms(2) by (intro call_default) simp_all
  then have c: "call (Node N True (int (Suc i)) (- 1) g) (ins (Suc i) x ys)
      = Inr (True, Node N True (int i) (- 1) g, ins i x ys)"
    using Suc.prems by (simp add: swap_ins_down)
  from Suc have "trace i (Node N True (int i) (- 1) g) (ins i x ys)
       = Inr (map (\<lambda>j. (True, ins j x ys)) (rev [0..<i]), Node N True 0 (- 1) g)"
    by simp
  with c show ?case by (simp del: of_nat_Suc)
qed

lemma sweep_right:
  assumes "i + k = length ys" "N = Suc (length ys)"
  shows "trace k (Node N True (int (Suc i)) 1 g) (ins i x ys)
       = Inr (map (\<lambda>j. (True, ins j x ys)) [Suc i..<N], Node N True (int N) 1 g)"
  using assms(1)
proof (induction k arbitrary: i)
  case 0
  with assms(2) show ?case by simp
next
  case (Suc k)
  then have i: "i < length ys" by simp
  have "call (Node N True (int (Suc i)) 1 g) (ins i x ys)
      = Inr (True, Node N True (int (Suc i) + 1) 1 g, swap (ins i x ys) (Suc i) (Suc i - 1))"
    using i assms(2) by (intro call_default) simp_all
  then have c: "call (Node N True (int (Suc i)) 1 g) (ins i x ys)
      = Inr (True, Node N True (int (Suc (Suc i))) 1 g, ins (Suc i) x ys)"
    using i by (simp add: swap_ins_up add.commute)
  from Suc.prems have "Suc i + k = length ys" by simp
  from Suc.IH[OF this] have "trace k (Node N True (int (Suc (Suc i))) 1 g) (ins (Suc i) x ys)
       = Inr (map (\<lambda>j. (True, ins j x ys)) [Suc (Suc i)..<N], Node N True (int N) 1 g)" .
  moreover from i assms(2) have "[Suc i..<N] = Suc i # [Suc (Suc i)..<N]"
    by (simp add: upt_conv_Cons)
  ultimately show ?case using c by (simp del: of_nat_Suc)
qed

lemma block_left:
  assumes c: "call p0 ys = Inr (True, p0', ys')" and n: "0 < length ys" and N: "N = Suc (length ys)"
  shows "trace N (Node N True (int N) d p0) (ys @ [x])
       = Inr (map (\<lambda>j. (True, ins j x ys')) (rev [0..<N]), Node N True 0 (- 1) p0')"
proof -
  from call_length[OF c] have l: "length ys' = length ys" .
  then have e: "ys' @ [x] = ins (length ys) x ys'" by (simp add: ins_def)
  have "call (Node N True (int N) d p0) (ys @ [x])
      = Inr (True, Node N True (int (length ys)) (- 1) p0', ins (length ys) x ys')"
    using c N e by simp
  moreover have "trace (length ys) (Node N True (int (length ys)) (- 1) p0') (ins (length ys) x ys')
       = Inr (map (\<lambda>j. (True, ins j x ys')) (rev [0..<length ys]), Node N True 0 (- 1) p0')"
    using N l by (intro sweep_left) simp_all
  ultimately show ?thesis
    unfolding N by (simp del: of_nat_Suc)
qed

lemma block_right:
  assumes c: "call p0 ys = Inr (True, p0', ys')" and n: "0 < length ys" and N: "N = Suc (length ys)"
  shows "trace N (Node N True 0 d p0) (x # ys)
       = Inr (map (\<lambda>j. (True, ins j x ys')) [0..<N], Node N True (int N) 1 p0')"
proof -
  from call_length[OF c] have l: "length ys' = length ys" .
  have "call (Node N True 0 d p0) (x # ys)
      = Inr (True, Node N True (int (Suc 0)) 1 p0', ins 0 x ys')"
    using c N by simp
  moreover have "trace (length ys) (Node N True (int (Suc 0)) 1 p0') (ins 0 x ys')
       = Inr (map (\<lambda>j. (True, ins j x ys')) [Suc 0..<N], Node N True (int N) 1 p0')"
    using N l by (intro sweep_right) simp_all
  moreover have "[0..<N] = 0 # [Suc 0..<N]"
    using N by (intro upt_conv_Cons) simp
  ultimately show ?thesis
    unfolding N by (simp del: of_nat_Suc ins_0 upt_Suc)
qed

text \<open>
  What the closure of size \<open>N\<close> does while its inner closure goes through the slices
  \<open>A\<close>: for each of them the cell \<open>x\<close> sweeps through all \<open>N\<close> positions, leftwards and
  rightwards in turn.
\<close>

fun expand :: "bool \<Rightarrow> nat \<Rightarrow> 'a \<Rightarrow> 'a list list \<Rightarrow> (bool \<times> 'a list) list" where
  "expand lft N x [] = []"
| "expand lft N x (y # A) =
     map (\<lambda>j. (True, ins j x y)) (if lft then rev [0..<N] else [0..<N]) @ expand (\<not> lft) N x A"

lemma outer_trace:
  assumes "trace m p0 ys = Inr (tr, p0')" "\<forall>e \<in> set tr. fst e" "0 < length ys" "N = Suc (length ys)"
  shows "\<exists>d'. trace (m * N) (Node N True (if lft then int N else 0) d p0)
                (if lft then ys @ [x] else x # ys)
            = Inr (expand lft N x (map snd tr),
                   Node N True (if lft = even m then int N else 0) d' p0')"
  using assms(1,2,3,4)
proof (induction m arbitrary: p0 ys tr lft d)
  case 0
  then show ?case by auto
next
  case (Suc m)
  from Suc.prems(1) obtain b g1 y1 tr' where c: "call p0 ys = Inr (b, g1, y1)"
    and t: "trace m g1 y1 = Inr (tr', p0')" and tr: "tr = (b, y1) # tr'"
    by (auto split: sum.splits)
  from Suc.prems(2) tr have b: "b" and all: "\<forall>e \<in> set tr'. fst e" by auto
  from c b have c: "call p0 ys = Inr (True, g1, y1)" by simp
  from call_length[OF c] have l: "length y1 = length ys" .
  let ?block = "map (\<lambda>j. (True, ins j x y1)) (if lft then rev [0..<N] else [0..<N])"
  obtain d1 where blk: "trace N (Node N True (if lft then int N else 0) d p0)
        (if lft then ys @ [x] else x # ys)
      = Inr (?block, Node N True (if \<not> lft then int N else 0) d1 g1)"
    using block_left[OF c Suc.prems(3,4)] block_right[OF c Suc.prems(3,4)]
    by (cases lft) auto
  have N: "N = Suc (length y1)" "0 < length y1" using Suc.prems(3,4) l by simp_all
  have la: "last_arr (if lft then ys @ [x] else x # ys) ?block
      = (if \<not> lft then y1 @ [x] else x # y1)"
    using N by (auto simp: last_arr_def last_map last_rev ins_def)
  from Suc.IH[OF t all N(2,1), of "\<not> lft" d1 ] obtain d' where
    ih: "trace (m * N) (Node N True (if \<not> lft then int N else 0) d1 g1)
            (if \<not> lft then y1 @ [x] else x # y1)
         = Inr (expand (\<not> lft) N x (map snd tr'),
                Node N True (if (\<not> lft) = even m then int N else 0) d' p0')"
    by blast
  have "trace (N + m * N) (Node N True (if lft then int N else 0) d p0)
                (if lft then ys @ [x] else x # ys)
      = Inr (?block @ expand (\<not> lft) N x (map snd tr'),
             Node N True (if (\<not> lft) = even m then int N else 0) d' p0')"
    by (subst trace_append) (simp only: blk la ih sum.case prod.case)
  moreover have "((\<not> lft) = even m) = (lft = even (Suc m))" by auto
  ultimately show ?case
    unfolding tr by auto
qed

lemma expand_all_true: "e \<in> set (expand lft N x A) \<Longrightarrow> fst e"
  by (induction A arbitrary: lft) auto

lemma length_expand: "length (expand lft N x A) = length A * N"
  by (induction A arbitrary: lft) auto

lemma swap_commute: "swap p i j = swap p j i"
  by (cases "i = j") (simp_all add: swap_def list_update_swap)

lemma adj_ins_up: "j < length y \<Longrightarrow> adj (ins j x y) (ins (Suc j) x y)"
  unfolding adj_def using swap_ins_up[of j y x] by (auto simp: swap_commute intro!: exI[of _ j])

lemma adj_ins_down: "j < length y \<Longrightarrow> adj (ins (Suc j) x y) (ins j x y)"
  unfolding adj_def using swap_ins_down[of j y x] by (auto simp: swap_commute intro!: exI[of _ j])

lemma successively_ins_up:
  "N \<le> Suc (length y) \<Longrightarrow> successively adj (map (\<lambda>j. ins j x y) [0..<N])"
proof (induction N)
  case 0
  show ?case by simp
next
  case (Suc N)
  then show ?case
    by (cases N) (auto simp: successively_append_iff last_map adj_ins_up simp del: ins_0)
qed

lemma successively_ins_down:
  "N \<le> Suc (length y) \<Longrightarrow> successively adj (map (\<lambda>j. ins j x y) (rev [0..<N]))"
proof (induction N)
  case 0
  show ?case by simp
next
  case (Suc N)
  then show ?case
    by (cases N) (auto simp: successively_Cons hd_map hd_rev adj_ins_down rev_map[symmetric] simp del: ins_0)
qed

lemma adj_Cons: "adj a b \<Longrightarrow> adj (x # a) (x # b)"
  unfolding adj_def
proof (elim exE conjE)
  fix j assume "Suc j < length a" "b = swap a j (Suc j)"
  then have "Suc (Suc j) < length (x # a) \<and> x # b = swap (x # a) (Suc j) (Suc (Suc j))"
    by (simp add: swap_def)
  then show "\<exists>j. Suc j < length (x # a) \<and> x # b = swap (x # a) j (Suc j)" by blast
qed

lemma adj_snoc: "adj a b \<Longrightarrow> adj (a @ [x]) (b @ [x])"
  unfolding adj_def
proof (elim exE conjE)
  fix j assume "Suc j < length a" "b = swap a j (Suc j)"
  then have "Suc j < length (a @ [x]) \<and> b @ [x] = swap (a @ [x]) j (Suc j)"
    by (simp add: swap_def nth_append list_update_append)
  then show "\<exists>j. Suc j < length (a @ [x]) \<and> b @ [x] = swap (a @ [x]) j (Suc j)" by blast
qed

lemma map_snd_sweep: "map snd (map (\<lambda>j. (True, ins j x y)) js) = map (\<lambda>j. ins j x y) js"
  by simp

lemma sweep_ends:
  assumes "N = Suc (length y)"
  shows "hd (map (\<lambda>j. ins j x y) [0..<N]) = x # y"
    and "last (map (\<lambda>j. ins j x y) [0..<N]) = y @ [x]"
    and "hd (map (\<lambda>j. ins j x y) (rev [0..<N])) = y @ [x]"
    and "last (map (\<lambda>j. ins j x y) (rev [0..<N])) = x # y"
proof -
  have a: "[0..<N] = 0 # [Suc 0..<N]" unfolding assms by (rule upt_conv_Cons) simp
  have b: "[0..<N] = [0..<length y] @ [length y]" unfolding assms by simp
  show "hd (map (\<lambda>j. ins j x y) [0..<N]) = x # y" by (subst a) simp
  show "last (map (\<lambda>j. ins j x y) [0..<N]) = y @ [x]" by (subst b) simp
  show "hd (map (\<lambda>j. ins j x y) (rev [0..<N])) = y @ [x]" by (subst b) simp
  show "last (map (\<lambda>j. ins j x y) (rev [0..<N])) = x # y" by (subst a) simp
qed

lemma hd_expand:
  assumes "N = Suc (length y)"
  shows "snd (hd (expand True N x (y # A))) = y @ [x]"
proof -
  have "[0..<N] \<noteq> []" using assms by simp
  then have "snd (hd (expand True N x (y # A))) = hd (map (\<lambda>j. ins j x y) (rev [0..<N]))"
    by (simp add: hd_append hd_map del: upt_Suc)
  with sweep_ends(3)[OF assms] show ?thesis by simp
qed

lemma expand_Nil_iff: "0 < N \<Longrightarrow> expand lft N x A = [] \<longleftrightarrow> A = []"
  by (cases A) auto

lemma last_expand:
  assumes "A \<noteq> []" "N = Suc n" "\<forall>a \<in> set A. length a = n"
  shows "last (map snd (expand lft N x A)) = (if lft = odd (length A) then x # last A else last A @ [x])"
  using assms(1,3)
proof (induction A arbitrary: lft)
  case Nil
  then show ?case by simp
next
  case (Cons y A)
  show ?case
  proof (cases "A = []")
    case True
    from Cons.prems assms(2) have "N = Suc (length y)" by simp
    from sweep_ends(2,4)[OF this, of x] True show ?thesis
      by (simp add: comp_def del: upt_Suc)
  next
    case False
    then have "expand (\<not> lft) N x A \<noteq> []"
      using assms(2) by (simp add: expand_Nil_iff)
    then have "last (map snd (expand lft N x (y # A))) = last (map snd (expand (\<not> lft) N x A))"
      by simp
    also have "\<dots> = (if (\<not> lft) = odd (length A) then x # last A else last A @ [x])"
      using Cons.IH[OF False] Cons.prems(2) by simp
    finally show ?thesis using False by auto
  qed
qed

lemma successively_expand:
  assumes "successively adj A" "N = Suc n" "\<forall>a \<in> set A. length a = n"
  shows "successively adj (map snd (expand lft N x A))"
  using assms(1,3)
proof (induction A arbitrary: lft)
  case Nil
  show ?case by simp
next
  case (Cons y A)
  have ly: "length y = n" using Cons.prems(2) by simp
  let ?blk = "map (\<lambda>j. ins j x y) (if lft then rev [0..<N] else [0..<N])"
  have blk: "successively adj ?blk"
    using successively_ins_up[of N y x] successively_ins_down[of N y x] assms(2) ly by simp
  have Ny: "N = Suc (length y)" using assms(2) ly by simp
  have lastblk: "?blk \<noteq> []" "last ?blk = (if lft then x # y else y @ [x])"
    using sweep_ends(2,4)[OF Ny, of x] Ny by (simp_all del: upt_Suc)
  show ?case
  proof (cases A)
    case Nil
    with blk show ?thesis by (simp add: comp_def)
  next
    case (Cons y' A')
    with Cons.prems have yy: "adj y y'" and sA: "successively adj A" and lA: "\<forall>a \<in> set A. length a = n"
      by auto
    from Cons.IH[OF sA lA] have rest: "successively adj (map snd (expand (\<not> lft) N x A))" .
    have ly': "length y' = n" using lA Cons by simp
    have Ny': "N = Suc (length y')" using assms(2) ly' by simp
    have hdrest: "hd (map snd (expand (\<not> lft) N x A)) = (if lft then x # y' else y' @ [x])"
      using sweep_ends(1,3)[OF Ny', of x] Ny' unfolding Cons
      by (simp add: hd_append comp_def del: upt_Suc)
    have "adj (last ?blk) (hd (map snd (expand (\<not> lft) N x A)))"
      unfolding lastblk hdrest using yy by (auto intro: adj_Cons adj_snoc)
    with blk rest lastblk(1) show ?thesis
      by (simp add: successively_append_iff comp_def)
  qed
qed

fun perm_of :: "sjtr_closure \<Rightarrow> bool" where
  "perm_of (Leaf perm) = perm"
| "perm_of (Node n perm i d p0) = perm"

lemma call_dead: "\<not> perm_of g \<Longrightarrow> call g p = Inr (False, g, p)"
  by (cases g) auto

lemma trace_dead: "\<not> perm_of g \<Longrightarrow> trace m g p = Inr (replicate m (False, p), g)"
  by (induction m) (auto simp: call_dead)

lemma even_fact: "2 \<le> n \<Longrightarrow> even (fact n :: nat)"
  by (rule dvd_fact) simp_all

lemma adj_rotate_two: "adj [x, y] [y, x]"
  unfolding adj_def by (auto simp: swap_def intro!: exI[of _ 0])

lemma sjtr_run:
  "length xs = n \<Longrightarrow>
   \<exists>tr g g'. trace (fact n) (sjtr n) xs = Inr (tr, g) \<and> tr \<noteq> [] \<and> (\<forall>e \<in> set tr. fst e) \<and>
     (\<forall>e \<in> set tr. length (snd e) = n) \<and>
     snd (hd tr) = xs \<and> successively adj (map snd tr) \<and>
     call g (snd (last tr)) = Inr (False, g', xs) \<and> \<not> perm_of g' \<and>
     (2 \<le> n \<longrightarrow> adj (snd (last tr)) xs) \<and> (n \<le> 1 \<longrightarrow> snd (last tr) = xs)"
proof (induction n arbitrary: xs rule: sjtr.induct)
  case 1
  then show ?case by (intro exI[of _ "[(True, xs)]"]) simp
next
  case 2
  show ?case using 2 by (intro exI[of _ "[(True, xs)]"]) simp
next
  case (3 m)
  let ?n = "Suc m" and ?N = "Suc (Suc m)"
  define ys where "ys = butlast xs"
  define x where "x = last xs"
  from "3.prems" have "xs \<noteq> []" by auto
  then have xs: "xs = ys @ [x]" by (simp add: ys_def x_def)
  from "3.prems" have lys: "length ys = ?n" by (simp add: ys_def)
  from "3.IH"[OF lys] obtain tr g g' where
    t: "trace (fact ?n) (sjtr ?n) ys = Inr (tr, g)" and ne: "tr \<noteq> []"
    and tt: "\<forall>e \<in> set tr. fst e" and tl: "\<forall>e \<in> set tr. length (snd e) = ?n"
    and th: "snd (hd tr) = ys" and ts: "successively adj (map snd tr)"
    and fin: "call g (snd (last tr)) = Inr (False, g', ys)" and dead: "\<not> perm_of g'"
    and adjl: "2 \<le> ?n \<longrightarrow> adj (snd (last tr)) ys" and eql: "?n \<le> 1 \<longrightarrow> snd (last tr) = ys"
    by blast
  let ?A = "map snd tr"
  let ?tr = "expand True ?N x ?A"
  define F :: nat where "F = fact ?n"
  have f: "fact ?N = F * ?N" by (simp add: F_def mult.commute)
  from trace_length[OF t] have ltr: "length tr = F" by (simp only: F_def)
  have lA: "\<forall>a \<in> set ?A. length a = ?n" using tl by auto
  from outer_trace[OF t tt, of ?N True 0 x] lys obtain d' where
    "trace (fact ?n * ?N) (Node ?N True (int ?N) 0 (sjtr ?n)) (ys @ [x])
        = Inr (?tr, Node ?N True (if even (fact ?n :: nat) then int ?N else 0) d' g)"
    by auto
  then have ot: "trace (F * ?N) (Node ?N True (int ?N) 0 (sjtr ?n)) (ys @ [x])
        = Inr (?tr, Node ?N True (if even F then int ?N else 0) d' g)"
    by (simp only: F_def)
  have run: "trace (fact ?N) (sjtr ?N) xs
      = Inr (?tr, Node ?N True (if even F then int ?N else 0) d' g)"
    unfolding f xs using ot by simp
  have A_ne: "?A \<noteq> []" using ne by simp
  have tr_ne: "?tr \<noteq> []" using A_ne by (simp add: expand_Nil_iff)
  have all_true: "\<forall>e \<in> set ?tr. fst e" by (rule ballI) (rule expand_all_true)
  obtain y A' where A: "?A = y # A'" using A_ne by (cases ?A) auto
  have hdA: "y = ys" using th A ne by (cases tr) auto
  have e: "?tr = expand True ?N x (ys # A')" using A hdA by simp
  have "snd (hd (expand True ?N x (ys # A'))) = ys @ [x]"
    by (rule hd_expand) (simp add: lys)
  then have hd: "snd (hd ?tr) = xs"
    unfolding e[symmetric] xs .
  have succ: "successively adj (map snd ?tr)"
    using ts lA by (intro successively_expand[where n = ?n]) simp_all
  have lens: "\<forall>e \<in> set ?tr. length (snd e) = ?N"
  proof
    fix e assume "e \<in> set ?tr"
    then have "snd e \<in> set (map snd ?tr)" by simp
    moreover have "\<forall>a \<in> set (map snd (expand lft ?N x B)). length a = ?N"
      if "\<forall>a \<in> set B. length a = ?n" for B lft
      using that by (induction B arbitrary: lft) auto
    ultimately show "length (snd e) = ?N" using lA by blast
  qed
  have lastA: "last ?A = snd (last tr)" using ne by (simp add: last_map)
  have "last (map snd ?tr) = (if True = odd (length ?A) then x # last ?A else last ?A @ [x])"
    by (rule last_expand[OF A_ne refl lA])
  moreover have "length ?A = F" by (simp only: length_map ltr)
  moreover have "last (map snd ?tr) = snd (last ?tr)" using tr_ne by (simp add: last_map)
  ultimately have last: "snd (last ?tr) = (if odd F then x # snd (last tr) else snd (last tr) @ [x])"
    by (simp only: lastA simp_thms)
  have llast: "length (snd (last tr)) = ?n" using tl ne by simp
  show ?case
  proof (cases "m = 0")
    case True
    then have odd: "odd F" by (simp add: F_def)
    from True eql have e: "snd (last tr) = ys" by simp
    from True lys obtain y0 where y0: "ys = [y0]" by (cases ys) auto
    have c: "call (Node ?N True 0 d' g) (x # ys) = Inr (False, Node ?N False 1 1 g', ys @ [x])"
      using fin e y0 by (simp add: swap_checked_def in_range_def swap_def)
    have a: "adj (x # ys) xs" unfolding xs y0 using adj_rotate_two by simp
    have l: "snd (last ?tr) = x # ys" using last odd e by simp
    have r: "trace (fact ?N) (sjtr ?N) xs = Inr (?tr, Node ?N True 0 d' g)"
      using run odd by simp
    show ?thesis
      using r tr_ne all_true lens hd succ c a unfolding l[symmetric] xs[symmetric]
      by (intro exI conjI) (assumption | simp)+
  next
    case False
    then have ev: "even F" unfolding F_def by (intro even_fact) simp
    have c: "call (Node ?N True (int ?N) d' g) (snd (last tr) @ [x])
        = Inr (False, Node ?N False (int ?n) (- 1) g', ys @ [x])"
      using fin llast by simp
    from False adjl have a: "adj (snd (last tr) @ [x]) xs"
      unfolding xs by (intro adj_snoc) simp
    have l: "snd (last ?tr) = snd (last tr) @ [x]" using last ev by simp
    have r: "trace (fact ?N) (sjtr ?N) xs = Inr (?tr, Node ?N True (int ?N) d' g)"
      using run ev by simp
    show ?thesis
      using r tr_ne all_true lens hd succ c a unfolding l[symmetric] xs[symmetric]
      by (intro exI conjI) (assumption | simp)+
  qed
qed

lemma adj_distinct:
  assumes "adj a b" "distinct a"
  shows "a \<noteq> b" "distinct b"
proof -
  from assms(1) obtain j where j: "Suc j < length a" and b: "b = swap a j (Suc j)"
    unfolding adj_def by blast
  from j assms(2) have "a ! j \<noteq> a ! Suc j"
    by (simp add: nth_eq_iff_index_eq)
  moreover from j have "b ! j = a ! Suc j"
    unfolding b swap_def by simp
  ultimately show "a \<noteq> b" by auto
  from j assms(2) show "distinct b"
    unfolding b swap_def by (simp add: distinct_swap)
qed

lemma successively_adj_distinct:
  "successively adj A \<Longrightarrow> A \<noteq> [] \<Longrightarrow> distinct (hd A) \<Longrightarrow>
   successively (\<lambda>a b. adj a b \<and> a \<noteq> b) A"
proof (induction A rule: induct_list012)
  case (3 a b A)
  then have ab: "adj a b" and d: "distinct a" by simp_all
  from adj_distinct[OF ab d] 3 show ?case by simp
qed simp_all

lemma sjtr_trace:
  "\<exists>tr1 g. trace (fact (length p) + Suc m) (sjtr (length p)) p
       = Inr (tr1 @ replicate (Suc m) (False, p), g) \<and>
     length tr1 = fact (length p) \<and> (\<forall>e \<in> set tr1. fst e) \<and> snd (hd tr1) = p \<and>
     successively adj (map snd tr1) \<and>
     (2 \<le> length p \<longrightarrow> adj (snd (last tr1)) p) \<and> (length p \<le> 1 \<longrightarrow> snd (last tr1) = p)"
proof -
  from sjtr_run[OF refl, of p] obtain tr g g' where
    t: "trace (fact (length p)) (sjtr (length p)) p = Inr (tr, g)" and ne: "tr \<noteq> []"
    and tt: "\<forall>e \<in> set tr. fst e"
    and th: "snd (hd tr) = p" and ts: "successively adj (map snd tr)"
    and fin: "call g (snd (last tr)) = Inr (False, g', p)" and dead: "\<not> perm_of g'"
    and adjl: "2 \<le> length p \<longrightarrow> adj (snd (last tr)) p"
    and eql: "length p \<le> 1 \<longrightarrow> snd (last tr) = p"
    by blast
  have "trace (Suc m) g (snd (last tr)) = Inr ((False, p) # replicate m (False, p), g')"
    using fin trace_dead[OF dead, of m p] by simp
  then have "trace (fact (length p) + Suc m) (sjtr (length p)) p
      = Inr (tr @ replicate (Suc m) (False, p), g')"
    using t ne by (subst trace_append) (simp add: last_arr_def)
  with trace_length[OF t] tt th ts adjl eql show ?thesis by blast
qed

text \<open>
  C3. For every slice \<open>p\<close> of any length \<open>n \<ge> 0\<close>: the iterator of \<open>SJTRecursive(p)\<close>
  returns true on each of its first \<open>n!\<close> calls and false on every later call, however
  many there are (\<open>Suc m\<close> of them below); after the first call that returns false and
  after every later one the slice is \<open>p\<close> in its original order. For \<open>n\<close> in \<open>{0, 1}\<close>,
  \<open>n! = 1\<close>: one true, then false for ever. No call panics.
\<close>

theorem SJTRecursive_exhausts:
  "\<exists>tr. calls (fact (length p) + Suc m) (SJTRecursive p) = Inr tr \<and>
        map fst tr = replicate (fact (length p)) True @ replicate (Suc m) False \<and>
        map snd (drop (fact (length p)) tr) = replicate (Suc m) p"
proof -
  from sjtr_trace[of p m] obtain tr1 g where
    t: "trace (fact (length p) + Suc m) (sjtr (length p)) p
       = Inr (tr1 @ replicate (Suc m) (False, p), g)"
    and l: "length tr1 = fact (length p)" and tt: "\<forall>e \<in> set tr1. fst e"
    by blast
  from tt have "map fst tr1 = replicate (length tr1) True"
    by (induction tr1) auto
  with l have "map fst tr1 = replicate (fact (length p)) True" by simp
  with t l show ?thesis
    by (intro exI[of _ "tr1 @ replicate (Suc m) (False, p)"])
       (simp add: calls_def SJTRecursive_def del: replicate_Suc)
qed

text \<open>
  C6, as the code has it. For every slice \<open>p\<close> of length \<open>n \<ge> 2\<close>: the first call
  returns true and leaves \<open>p\<close> as it is; from then on, up to and including call \<open>n! + 1\<close>,
  the slice after each call is the slice before it with the cells of one pair of
  adjacent positions exchanged (\<open>adj\<close>), and is a different slice when the cells of \<open>p\<close>
  are distinct; the calls \<open>1 .. n!\<close> return true and call \<open>n! + 1\<close>, which makes the
  last exchange, returns false; every later call returns false and changes nothing.
  For \<open>n \<le> 1\<close> no call changes the slice.
\<close>

theorem SJTRecursive_swaps:
  "\<exists>tr. calls (fact (length p) + Suc m) (SJTRecursive p) = Inr tr \<and>
        hd tr = (True, p) \<and>
        (2 \<le> length p \<longrightarrow>
           successively adj (map snd (take (fact (length p) + 1) tr)) \<and>
           (distinct p \<longrightarrow>
              successively (\<lambda>a b. adj a b \<and> a \<noteq> b) (map snd (take (fact (length p) + 1) tr)))) \<and>
        (length p \<le> 1 \<longrightarrow> map snd (take (fact (length p) + 1) tr) = [p, p]) \<and>
        map fst (take (fact (length p) + 1) tr) = replicate (fact (length p)) True @ [False] \<and>
        drop (fact (length p) + 1) tr = replicate m (False, p)"
proof -
  let ?F = "fact (length p) :: nat"
  from sjtr_trace[of p m] obtain tr1 g where
    t: "trace (?F + Suc m) (sjtr (length p)) p = Inr (tr1 @ replicate (Suc m) (False, p), g)"
    and l: "length tr1 = ?F" and tt: "\<forall>e \<in> set tr1. fst e" and th: "snd (hd tr1) = p"
    and ts: "successively adj (map snd tr1)"
    and adjl: "2 \<le> length p \<longrightarrow> adj (snd (last tr1)) p"
    and eql: "length p \<le> 1 \<longrightarrow> snd (last tr1) = p"
    by blast
  let ?tr = "tr1 @ replicate (Suc m) (False, p)"
  have ne: "tr1 \<noteq> []" using l by auto
  have tk: "take (?F + 1) ?tr = tr1 @ [(False, p)]" using l by simp
  have dr: "drop (?F + 1) ?tr = replicate m (False, p)" using l by simp
  from tt have "map fst tr1 = replicate (length tr1) True"
    by (induction tr1) auto
  with l have bs: "map fst tr1 = replicate ?F True" by simp
  have c1: "calls (?F + Suc m) (SJTRecursive p) = Inr ?tr"
    by (simp only: calls_def SJTRecursive_def fst_conv snd_conv t sum.case prod.case)
  have c2: "hd ?tr = (True, p)"
    using ne tt th by (cases tr1) (auto simp: prod_eq_iff)
  have s2: "successively adj (map snd (tr1 @ [(False, p)]))" if "2 \<le> length p"
    using ts adjl that ne by (simp add: successively_append_iff last_map)
  have s3: "successively (\<lambda>a b. adj a b \<and> a \<noteq> b) (map snd (tr1 @ [(False, p)]))"
    if "2 \<le> length p" "distinct p"
    using s2[OF that(1)] that(2) th ne
    by (intro successively_adj_distinct) (simp_all add: hd_append hd_map)
  have c3: "2 \<le> length p \<longrightarrow>
           successively adj (map snd (take (?F + 1) ?tr)) \<and>
           (distinct p \<longrightarrow>
              successively (\<lambda>a b. adj a b \<and> a \<noteq> b) (map snd (take (?F + 1) ?tr)))"
    unfolding tk using s2 s3 by blast
  have c4: "length p \<le> 1 \<longrightarrow> map snd (take (?F + 1) ?tr) = [p, p]"
    unfolding tk
  proof
    assume "length p \<le> 1"
    then have "?F = 1" by (cases "length p") auto
    with l obtain e where "tr1 = [e]" by (cases tr1) auto
    with th show "map snd (tr1 @ [(False, p)]) = [p, p]" by simp
  qed
  have c5: "map fst (take (?F + 1) ?tr) = replicate ?F True @ [False]"
    unfolding tk using bs by simp
  show ?thesis
    using c1 c2 c3 c4 c5 dr by (intro exI[of _ ?tr] conjI)
qed


theorem SJTRecursive_swaps_witness:
  "2 \<le> length [0, 1 :: int] \<and> distinct [0, 1 :: int] \<and>
   calls 3 (SJTRecursive [0, 1 :: int]) = Inr [(True, [0, 1]), (True, [1, 0]), (False, [0, 1])] \<and>
   successively (\<lambda>a b. adj a b \<and> a \<noteq> b) [[0, 1], [1, 0], [0, 1 :: int]] \<and>
   length [7 :: int] \<le> 1 \<and>
   calls 2 (SJTRecursive [7 :: int]) = Inr [(True, [7]), (False, [7])]"
proof -
  have e: "calls 3 (SJTRecursive [0, 1 :: int]) = Inr [(True, [0, 1]), (True, [1, 0]), (False, [0, 1])]"
    by code_simp
  have e7: "calls 2 (SJTRecursive [7 :: int]) = Inr [(True, [7]), (False, [7])]"
    by code_simp
  have f: "fact (length [0, 1 :: int]) + Suc 0 = (3 :: nat)" "fact (length [0, 1 :: int]) + 1 = (3 :: nat)"
    by (simp_all add: fact_numeral numeral_2_eq_2)
  from SJTRecursive_swaps[of "[0, 1 :: int]" 0] obtain tr where
    "calls (fact (length [0, 1 :: int]) + Suc 0) (SJTRecursive [0, 1 :: int]) = Inr tr"
    and "2 \<le> length [0, 1 :: int] \<longrightarrow>
           successively adj (map snd (take (fact (length [0, 1 :: int]) + 1) tr)) \<and>
           (distinct [0, 1 :: int] \<longrightarrow>
              successively (\<lambda>a b. adj a b \<and> a \<noteq> b)
                (map snd (take (fact (length [0, 1 :: int]) + 1) tr)))"
    by blast
  then have tr: "tr = [(True, [0, 1]), (True, [1, 0]), (False, [0, 1])]"
    and s: "successively (\<lambda>a b. adj a b \<and> a \<noteq> b) (map snd (take 3 tr))"
    unfolding f e by simp_all
  from s have "successively (\<lambda>a b. adj a b \<and> a \<noteq> b) [[0, 1], [1, 0], [0, 1 :: int]]"
    unfolding tr by simp
  with e e7 show ?thesis by simp
qed

text \<open>
  C6 as stated fails on \<open>[0, 1]\<close>: the first call returns true without exchanging
  anything, and the third call, which returns false, exchanges the two cells.
\<close>

theorem SJTRecursive_swaps_counterexample:
  "calls 3 (SJTRecursive [0, 1 :: int]) = Inr [(True, [0, 1]), (True, [1, 0]), (False, [0, 1])]"
  by code_simp

end
